theory Spec2Isabelle
  imports Main "HOL-Library.Word" "HOL-Library.AList" "HOL-Library.Sublist"
begin

section \<open>The script engine of libraries/script-engine/src/ScriptEngine.cpp\<close>

text \<open>
  The C++ class \<open>ScriptEngine\<close> is embedded over an explicit store: a \<open>world\<close> holds
  every engine object (by identity), every \<open>QTimer\<close> object, the class statics
  (\<open>_allKnownScriptEngines\<close>, \<open>_stoppingAllScripts\<close>, \<open>_doneRunningThisScript\<close>) and the
  trace of what the engines emitted, invoked and sent. A member function becomes a
  function that takes \<open>this\<close> and the world and returns the new world. \<open>qDebug\<close> output,
  sleeping and the mutex are not part of the state.
\<close>

subsection \<open>Script values and what a running script does\<close>

type_synonym engine_id = nat
type_synonym timer_id = nat
type_synonym uuid = nat
type_synonym qobject = nat
type_synonym byte = "8 word"

text \<open>
  The interpreter (\<open>QScriptEngine\<close>) is opaque to the engine, so a program is given by
  what running it does to the engine: the calls it makes on the \<open>Script\<close> object, in order,
  the value it ends with and whether it ends in an uncaught exception. A function value
  carries its body: the calls it makes when called, and whether it throws.
\<close>

datatype scriptvalue =
    InvalidValue
  | NumberValue int
  | StringValue string
  | FunctionValue function_body
and function_body =
    FunctionBody "hostcall list" bool
and program =
    Program "hostcall list" scriptvalue bool
and hostcall =
    CallSetInterval scriptvalue int
  | CallSetTimeout scriptvalue int
  | CallClearTimer timer_id
  | CallStop
  | CallPrint string
  | CallLoad string
  | CallInclude "program option list" scriptvalue bool
  | OtherThreadSetsStoppingAll bool

fun isValid :: "scriptvalue \<Rightarrow> bool" where
  "isValid InvalidValue = False"
| "isValid _ = True"

fun isFunction :: "scriptvalue \<Rightarrow> bool" where
  "isFunction (FunctionValue _) = True"
| "isFunction _ = False"

subsection \<open>Objects and the world\<close>

record QTimer =
  parent :: engine_id
  singleShot :: bool
  active :: bool
  interval :: int

datatype audio_kind = SilentAudioFrame | MicrophoneAudioNoEcho

datatype event =
    EvaluationFinished engine_id scriptvalue bool
  | ErrorMessage engine_id
  | RunningStateChanged engine_id
  | Update engine_id
  | ScriptEnding engine_id
  | Finished engine_id
  | DoneRunning engine_id
  | PrintedMessage engine_id string
  | LoadScript engine_id string
  | TimerFunctionCalled engine_id timer_id "timer_id list"
  | EntityMessagesReleased engine_id
  | EntityMessagesProcessed engine_id
  | AvatarPacketBroadcast engine_id "byte list"
  | AudioDatagram engine_id uuid "16 word" audio_kind "byte list"

record ScriptEngine =
  scriptContents :: program
  isFinished :: bool
  isRunning :: bool
  isInitialized :: bool
  isAvatar :: bool
  timerFunctionMap :: "(timer_id \<times> scriptvalue) list"
  isListeningToAudioStream :: bool
  avatarSound :: "byte list option"
  numAvatarSoundSentBytes :: int
  avatarData :: "byte list option"
  outgoingScriptAudioSequenceNumbers :: "uuid \<rightharpoonup> 16 word"
  evaluatesPending :: int
  evaluatesPendingWritten :: "int list"
  hasUncaughtException :: bool
  connectedReceivers :: "qobject list"

record world =
  engines :: "engine_id \<Rightarrow> ScriptEngine"
  qtimers :: "timer_id \<rightharpoonup> QTimer"
  nextTimer :: timer_id
  allKnownScriptEngines :: "engine_id list"
  stoppingAllScripts :: bool
  doneRunningThisScript :: bool
  trace :: "event list"

definition self :: "engine_id \<Rightarrow> world \<Rightarrow> ScriptEngine" where
  "self this w = engines w this"

definition update_self :: "engine_id \<Rightarrow> (ScriptEngine \<Rightarrow> ScriptEngine) \<Rightarrow> world \<Rightarrow> world" where
  "update_self this f w = w\<lparr>engines := (engines w)(this := f (engines w this))\<rparr>"

definition emit :: "event \<Rightarrow> world \<Rightarrow> world" where
  "emit e w = w\<lparr>trace := trace w @ [e]\<rparr>"

subsection \<open>Timers: setupTimerWithInterval, setInterval, setTimeout, stopTimer\<close>

text \<open>
  \<open>new QTimer(this)\<close> yields an object distinct from every other one; the store hands out
  identities from a counter. \<open>_timerFunctionMap\<close> is a \<open>QHash\<close>: \<open>insert\<close> replaces the
  value of a key already there, \<open>remove\<close> drops the key, \<open>value\<close> is the default
  (invalid) script value for a missing key.
\<close>

definition setupTimerWithInterval ::
  "engine_id \<Rightarrow> scriptvalue \<Rightarrow> int \<Rightarrow> bool \<Rightarrow> world \<Rightarrow> world \<times> timer_id option" where
  "setupTimerWithInterval this function intervalMS isSingleShot w =
     (let newTimer = nextTimer w;
          w1 = w\<lparr>qtimers := (qtimers w)(newTimer \<mapsto>
                   \<lparr>parent = this, singleShot = isSingleShot, active = False, interval = 0\<rparr>),
                 nextTimer := Suc newTimer\<rparr>;
          w2 = update_self this
                 (\<lambda>e. e\<lparr>timerFunctionMap := AList.update newTimer function (timerFunctionMap e)\<rparr>) w1;
          w3 = w2\<lparr>qtimers := (qtimers w2)(newTimer \<mapsto>
                   \<lparr>parent = this, singleShot = isSingleShot, active = True, interval = intervalMS\<rparr>)\<rparr>
      in (w3, Some newTimer))"

definition setInterval :: "engine_id \<Rightarrow> scriptvalue \<Rightarrow> int \<Rightarrow> world \<Rightarrow> world \<times> timer_id option" where
  "setInterval this function intervalMS w =
     (if stoppingAllScripts w then (w, None)
      else setupTimerWithInterval this function intervalMS False w)"

definition setTimeout :: "engine_id \<Rightarrow> scriptvalue \<Rightarrow> int \<Rightarrow> world \<Rightarrow> world \<times> timer_id option" where
  "setTimeout this function timeoutMS w =
     (if stoppingAllScripts w then (w, None)
      else setupTimerWithInterval this function timeoutMS True w)"

definition contains :: "(timer_id \<times> scriptvalue) list \<Rightarrow> timer_id \<Rightarrow> bool" where
  "contains m t = (map_of m t \<noteq> None)"

definition qtimer_stop :: "timer_id \<Rightarrow> world \<Rightarrow> world" where
  "qtimer_stop t w =
     (case qtimers w t of
        None \<Rightarrow> w
      | Some q \<Rightarrow> w\<lparr>qtimers := (qtimers w)(t \<mapsto> q\<lparr>active := False\<rparr>)\<rparr>)"

definition qtimer_delete :: "timer_id \<Rightarrow> world \<Rightarrow> world" where
  "qtimer_delete t w = w\<lparr>qtimers := (qtimers w)(t := None)\<rparr>"

definition stopTimer :: "engine_id \<Rightarrow> timer_id \<Rightarrow> world \<Rightarrow> world" where
  "stopTimer this timer w =
     (if contains (timerFunctionMap (self this w)) timer then
        (let w1 = qtimer_stop timer w;
             w2 = update_self this
                    (\<lambda>e. e\<lparr>timerFunctionMap := AList.delete timer (timerFunctionMap e)\<rparr>) w1
         in qtimer_delete timer w2)
      else w)"

subsection \<open>stop, print, load\<close>

definition stop :: "engine_id \<Rightarrow> world \<Rightarrow> world" where
  "stop this w = emit (RunningStateChanged this) (update_self this (\<lambda>e. e\<lparr>isFinished := True\<rparr>) w)"

definition print :: "engine_id \<Rightarrow> string \<Rightarrow> world \<Rightarrow> world" where
  "print this message w = emit (PrintedMessage this message) w"

text \<open>\<open>resolvePath\<close> is a computation on URLs only; the file name stands for its URL.\<close>

definition load :: "engine_id \<Rightarrow> string \<Rightarrow> world \<Rightarrow> world" where
  "load this loadFile w =
     (if stoppingAllScripts w then w else emit (LoadScript this loadFile) w)"

subsection \<open>evaluate, include and the calls of a running script\<close>

text \<open>
  Every write to \<open>_evaluatesPending\<close> is also appended to \<open>evaluatesPendingWritten\<close>, a
  history of the values the counter took, so that properties of the values in between
  can be stated.
\<close>

definition set_evaluatesPending :: "int \<Rightarrow> ScriptEngine \<Rightarrow> ScriptEngine" where
  "set_evaluatesPending v e =
     e\<lparr>evaluatesPending := v, evaluatesPendingWritten := evaluatesPendingWritten e @ [v]\<rparr>"

definition clearExceptions :: "engine_id \<Rightarrow> world \<Rightarrow> world" where
  "clearExceptions this w = update_self this (\<lambda>e. e\<lparr>hasUncaughtException := False\<rparr>) w"

text \<open>
  The calls of a program run in order, each on the world the one before left.
\<close>

definition run_in_order :: "(world \<Rightarrow> world) list \<Rightarrow> world \<Rightarrow> world" where
  "run_in_order steps w = fold (\<lambda>step. step) steps w"

text \<open>
  \<open>evaluateScripts\<close> is the lambda of \<open>ScriptEngine::include\<close> that is connected to the
  batch loader's \<open>finished\<close> signal. For every included file, in order, it evaluates the
  contents; a file that failed to load (contents \<open>None\<close>) is only logged. Then it calls the
  callback when that is a function. The evaluation of a file and the call of the callback
  are passed in, as the functions below define them.
\<close>

definition evaluateScripts ::
  "(world \<Rightarrow> world \<times> scriptvalue) option list \<Rightarrow> bool \<Rightarrow> (world \<Rightarrow> world) \<Rightarrow> world \<Rightarrow> world" where
  "evaluateScripts evaluations callbackIsFunction callCallback w =
     (let w1 = fold (\<lambda>contents w. case contents of None \<Rightarrow> w | Some eval \<Rightarrow> fst (eval w))
                 evaluations w
      in if callbackIsFunction then callCallback w1 else w1)"

text \<open>
  \<open>ScriptEngine::evaluate(program, fileName, lineNumber)\<close> in two halves, around the
  interpreter's run of the program: \<open>evaluate_enter\<close> is the increment of
  \<open>_evaluatesPending\<close>; \<open>evaluate_leave\<close> is everything from the return of
  \<open>QScriptEngine::evaluate\<close> on. When the interpreter returns, the engine has an uncaught
  exception exactly when the program ended in one (Qt clears the exception state when an
  evaluation starts).
\<close>

definition evaluate_enter :: "engine_id \<Rightarrow> world \<Rightarrow> world" where
  "evaluate_enter this w =
     update_self this (\<lambda>e. set_evaluatesPending (evaluatesPending e + 1) e) w"

definition evaluate_leave :: "engine_id \<Rightarrow> scriptvalue \<Rightarrow> bool \<Rightarrow> world \<Rightarrow> world" where
  "evaluate_leave this result throws w =
     (let w2 = update_self this (\<lambda>e. e\<lparr>hasUncaughtException := throws\<rparr>) w;
          w3 = update_self this (\<lambda>e. set_evaluatesPending (evaluatesPending e - 1) e) w2;
          w4 = emit (EvaluationFinished this result (hasUncaughtException (self this w3))) w3
      in clearExceptions this w4)"

text \<open>
  \<open>evaluate\<close> is \<open>ScriptEngine::evaluate(program, fileName, lineNumber)\<close>.
  \<open>call_function\<close> is \<open>QScriptValue::call\<close>: a value that is not a function does nothing.
  \<open>run_call\<close> is one call of the running script on the \<open>Script\<close> object; for
  \<open>Script.include\<close> (\<open>ScriptEngine::include\<close>) the flag \<open>loaderFinished\<close> says whether the
  batch loader finished inside the call (in \<open>start()\<close>, or, with no callback, during the
  blocking wait); a loader that finishes later runs \<open>evaluateScripts\<close> from the event
  queue. \<open>OtherThreadSetsStoppingAll\<close> is a write of the static \<open>_stoppingAllScripts\<close> by
  \<open>stopAllScripts\<close> on another thread while this script runs.
\<close>

primrec call_function :: "engine_id \<Rightarrow> scriptvalue \<Rightarrow> world \<Rightarrow> world"
and run_function_body :: "engine_id \<Rightarrow> function_body \<Rightarrow> world \<Rightarrow> world"
and evaluate :: "engine_id \<Rightarrow> program \<Rightarrow> world \<Rightarrow> world \<times> scriptvalue"
and run_call :: "engine_id \<Rightarrow> hostcall \<Rightarrow> world \<Rightarrow> world"
where
  "call_function this InvalidValue = (\<lambda>w. w)"
| "call_function this (NumberValue n) = (\<lambda>w. w)"
| "call_function this (StringValue s) = (\<lambda>w. w)"
| "call_function this (FunctionValue body) = run_function_body this body"
| "run_function_body this (FunctionBody calls throws) = (\<lambda>w.
     update_self this (\<lambda>e. e\<lparr>hasUncaughtException := hasUncaughtException e \<or> throws\<rparr>)
       (run_in_order (map (run_call this) calls) w))"
| "evaluate this (Program calls result throws) = (\<lambda>w.
     if stoppingAllScripts w then (w, InvalidValue)
     else
       (let w1 = evaluate_enter this w;
            w2 = run_in_order (map (run_call this) calls) w1
        in (evaluate_leave this result throws w2, result)))"
| "run_call this (CallSetInterval function intervalMS) =
     (\<lambda>w. fst (setInterval this function intervalMS w))"
| "run_call this (CallSetTimeout function timeoutMS) =
     (\<lambda>w. fst (setTimeout this function timeoutMS w))"
| "run_call this (CallClearTimer timer) = stopTimer this timer"
| "run_call this CallStop = stop this"
| "run_call this (CallPrint message) = print this message"
| "run_call this (CallLoad loadFile) = load this loadFile"
| "run_call this (CallInclude contents callback loaderFinished) = (\<lambda>w.
     if stoppingAllScripts w then w
     else if loaderFinished \<or> \<not> isFunction callback then
       evaluateScripts (map (map_option (evaluate this)) contents)
         (isFunction callback) (call_function this callback) w
     else w)"
| "run_call this (OtherThreadSetsStoppingAll b) = (\<lambda>w. w\<lparr>stoppingAllScripts := b\<rparr>)"

subsection \<open>timerFired\<close>

definition isActive :: "timer_id \<Rightarrow> world \<Rightarrow> bool" where
  "isActive t w = (case qtimers w t of None \<Rightarrow> False | Some q \<Rightarrow> active q)"

definition timerFunction_of :: "engine_id \<Rightarrow> timer_id \<Rightarrow> world \<Rightarrow> scriptvalue" where
  "timerFunction_of this t w =
     (case map_of (timerFunctionMap (self this w)) t of None \<Rightarrow> InvalidValue | Some f \<Rightarrow> f)"

text \<open>The first half of \<open>timerFired\<close>: a timer that is no longer active is removed and deleted.\<close>

definition retire_timer :: "engine_id \<Rightarrow> timer_id \<Rightarrow> world \<Rightarrow> world" where
  "retire_timer this callingTimer w =
     (if \<not> isActive callingTimer w then
        qtimer_delete callingTimer
          (update_self this
             (\<lambda>e. e\<lparr>timerFunctionMap := AList.delete callingTimer (timerFunctionMap e)\<rparr>) w)
      else w)"

text \<open>
  The call of the timer's function is recorded in the trace at the moment it is made,
  together with the keys that \<open>_timerFunctionMap\<close> holds at that moment: the map as the
  callback finds it when it is entered.
\<close>

definition timerFired :: "engine_id \<Rightarrow> timer_id \<Rightarrow> world \<Rightarrow> world" where
  "timerFired this callingTimer w =
     (let timerFunction = timerFunction_of this callingTimer w;
          w1 = retire_timer this callingTimer w
      in if isValid timerFunction
         then call_function this timerFunction
                (emit (TimerFunctionCalled this callingTimer
                         (map fst (timerFunctionMap (self this w1)))) w1)
         else w1)"

text \<open>
  Qt's side of a timeout (\<open>QTimer::timerEvent\<close>): only a live, active timer fires; a
  single-shot timer stops itself first; then the \<open>timeout\<close> signal reaches the slot
  \<open>timerFired\<close> of the engine that created the timer, with the timer as sender.
\<close>

definition qt_timeout :: "timer_id \<Rightarrow> world \<Rightarrow> world" where
  "qt_timeout t w =
     (case qtimers w t of
        None \<Rightarrow> w
      | Some q \<Rightarrow>
          if \<not> active q then w
          else timerFired (parent q) t (if singleShot q then qtimer_stop t w else w))"

text \<open>
  \<open>stopAllTimers\<close> calls \<open>stopTimer\<close> on the keys of the map; the iterator is taken to
  visit every key that was in the map when the loop began.
\<close>

definition stopAllTimers :: "engine_id \<Rightarrow> world \<Rightarrow> world" where
  "stopAllTimers this w =
     fold (\<lambda>timer. stopTimer this timer) (map fst (timerFunctionMap (self this w))) w"

subsection \<open>The sequence numbers of outgoing audio packets\<close>

datatype NodeType = AudioMixer | AvatarMixer | OtherNode

record Node =
  getUUID :: uuid
  getType :: NodeType

text \<open>
  \<open>_outgoingScriptAudioSequenceNumbers[uuid]++\<close>: \<open>QHash::operator[]\<close> inserts a zero for a
  missing key; the packet gets the value before the increment; \<open>quint16\<close> wraps.
\<close>

definition next_sequence :: "uuid \<Rightarrow> ScriptEngine \<Rightarrow> 16 word \<times> ScriptEngine" where
  "next_sequence u e =
     (let current = (case outgoingScriptAudioSequenceNumbers e u of None \<Rightarrow> 0 | Some s \<Rightarrow> s)
      in (current,
          e\<lparr>outgoingScriptAudioSequenceNumbers :=
               (outgoingScriptAudioSequenceNumbers e)(u \<mapsto> current + 1)\<rparr>))"

text \<open>The lambda that \<open>run\<close> passes to \<open>eachNode\<close>, for one node.\<close>

definition write_to_node :: "engine_id \<Rightarrow> audio_kind \<Rightarrow> byte list \<Rightarrow> Node \<Rightarrow> world \<Rightarrow> world" where
  "write_to_node this kind audioPacket node w =
     (if getType node = AudioMixer then
        (let (sequence, e) = next_sequence (getUUID node) (self this w);
             w1 = update_self this (\<lambda>_. e) w
         in emit (AudioDatagram this (getUUID node) sequence kind audioPacket) w1)
      else w)"

definition eachNode_write :: "engine_id \<Rightarrow> audio_kind \<Rightarrow> byte list \<Rightarrow> Node list \<Rightarrow> world \<Rightarrow> world" where
  "eachNode_write this kind audioPacket nodes w =
     fold (write_to_node this kind audioPacket) nodes w"

definition nodeKilled :: "engine_id \<Rightarrow> uuid \<Rightarrow> world \<Rightarrow> world" where
  "nodeKilled this u w =
     update_self this
       (\<lambda>e. e\<lparr>outgoingScriptAudioSequenceNumbers := (outgoingScriptAudioSequenceNumbers e)(u := None)\<rparr>) w"

subsection \<open>The avatar's sound buffer and the audio part of a frame\<close>

text \<open>
  \<open>SCRIPT_AUDIO_BUFFER_SAMPLES\<close> is computed from constants of headers outside this
  file; it is the parameter \<open>nsamp\<close> below, and \<open>SCRIPT_AUDIO_BUFFER_BYTES\<close> is twice
  that (\<open>sizeof(int16_t)\<close>). \<open>int\<close> values are modelled without a width.
\<close>

definition numAvailableBytes :: "int \<Rightarrow> int \<Rightarrow> int \<Rightarrow> int" where
  "numAvailableBytes nsamp byteArraySize sent =
     (if byteArraySize - sent > 2 * nsamp then 2 * nsamp else byteArraySize - sent)"

text \<open>
  \<open>numAvailableBytes / sizeof(int16_t)\<close> divides in \<open>size_t\<close> (64 bits) and the quotient
  is stored in an \<open>int16_t\<close>.
\<close>

definition numAvailableSamples :: "int \<Rightarrow> int" where
  "numAvailableSamples availableBytes =
     sint (word_of_int ((availableBytes mod 2 ^ 64) div 2) :: 16 word)"

text \<open>
  The block \<open>if (_avatarSound) { ... }\<close> of \<open>run\<close>: the result is \<open>silentFrame\<close>, the bytes
  of the samples at \<open>nextSoundOutput\<close>, and the engine with the cursor advanced. A sample
  is an \<open>int16_t\<close>, so it is zero when both its bytes are.
\<close>

definition pull_avatar_sound ::
  "int \<Rightarrow> byte list \<Rightarrow> ScriptEngine \<Rightarrow> bool \<times> byte list \<times> ScriptEngine" where
  "pull_avatar_sound nsamp soundByteArray e =
     (let byteArraySize = int (length soundByteArray);
          available = numAvailableBytes nsamp byteArraySize (numAvatarSoundSentBytes e);
          samples = take (nat (2 * numAvailableSamples available))
                      (drop (nat (numAvatarSoundSentBytes e)) soundByteArray);
          silentFrame = list_all (\<lambda>b. b = 0) samples;
          e1 = e\<lparr>numAvatarSoundSentBytes := numAvatarSoundSentBytes e + available\<rparr>;
          e2 = (if numAvatarSoundSentBytes e1 = byteArraySize
                then e1\<lparr>avatarSound := None, numAvatarSoundSentBytes := 0\<rparr>
                else e1)
      in (silentFrame, samples, e2))"

datatype loop_control = Continue | Break

text \<open>
  The block \<open>if (_isListeningToAudioStream || _avatarSound) { ... }\<close> of \<open>run\<close>. The
  position and orientation written into the packet are floating-point data of the
  avatar and are left out; a datagram is recorded with its sequence number, its packet
  type and its raw audio data. \<open>Break\<close> is the \<open>break\<close> statement, which leaves the
  \<open>while\<close> loop of \<open>run\<close>.
\<close>

definition audio_frame :: "int \<Rightarrow> engine_id \<Rightarrow> Node list \<Rightarrow> world \<Rightarrow> world \<times> loop_control" where
  "audio_frame nsamp this nodes w =
     (let (silentFrame, samples, e) =
            (case avatarSound (self this w) of
               None \<Rightarrow> (True, [], self this w)
             | Some soundByteArray \<Rightarrow> pull_avatar_sound nsamp soundByteArray (self this w));
          w1 = update_self this (\<lambda>_. e) w
      in if silentFrame then
           (if \<not> isListeningToAudioStream (self this w1) then (w1, Break)
            else (eachNode_write this SilentAudioFrame [] nodes w1, Continue))
         else (eachNode_write this MicrophoneAudioNoEcho samples nodes w1, Continue))"

text \<open>The block \<open>if (!_isFinished && _isAvatar && _avatarData) { ... }\<close> of \<open>run\<close>.\<close>

definition avatar_frame :: "int \<Rightarrow> engine_id \<Rightarrow> Node list \<Rightarrow> world \<Rightarrow> world \<times> loop_control" where
  "avatar_frame nsamp this nodes w =
     (case avatarData (self this w) of
        Some avatarBytes \<Rightarrow>
          if \<not> isFinished (self this w) \<and> isAvatar (self this w) then
            (let w1 = emit (AvatarPacketBroadcast this avatarBytes) w
             in if isListeningToAudioStream (self this w1) \<or> avatarSound (self this w1) \<noteq> None
                then audio_frame nsamp this nodes w1
                else (w1, Continue))
          else (w, Continue)
      | None \<Rightarrow> (w, Continue))"

subsection \<open>Entering and leaving run\<close>

definition init :: "engine_id \<Rightarrow> world \<Rightarrow> world" where
  "init this w =
     (if isInitialized (self this w) then w
      else update_self this (\<lambda>e. e\<lparr>isInitialized := True\<rparr>) w)"

text \<open>\<open>run\<close> up to its loop.\<close>

definition run_enter :: "engine_id \<Rightarrow> world \<Rightarrow> world" where
  "run_enter this w =
     (let w1 = (if \<not> isInitialized (self this w) then init this w else w);
          w2 = update_self this (\<lambda>e. e\<lparr>isRunning := True, isFinished := False\<rparr>) w1;
          w3 = emit (RunningStateChanged this) w2
      in fst (evaluate this (scriptContents (self this w3)) w3))"

definition release_entity_messages :: "engine_id \<Rightarrow> bool \<Rightarrow> bool \<Rightarrow> world \<Rightarrow> world" where
  "release_entity_messages this serversExist isThreaded w =
     (if serversExist then
        (let w1 = emit (EntityMessagesReleased this) w
         in if \<not> isThreaded then emit (EntityMessagesProcessed this) w1 else w1)
      else w)"

text \<open>
  \<open>emit scriptEnding()\<close>: every timer the engine created is connected to it with
  \<open>QTimer::stop\<close>.
\<close>

definition emit_scriptEnding :: "engine_id \<Rightarrow> world \<Rightarrow> world" where
  "emit_scriptEnding this w =
     emit (ScriptEnding this)
       (w\<lparr>qtimers := (\<lambda>t. case qtimers w t of
                            None \<Rightarrow> None
                          | Some q \<Rightarrow> if parent q = this then Some (q\<lparr>active := False\<rparr>) else Some q)\<rparr>)"

text \<open>
  \<open>run\<close> after its loop. The avatar identity timer and the thread's \<open>quit\<close> are not
  part of the state.
\<close>

definition run_leave :: "engine_id \<Rightarrow> bool \<Rightarrow> bool \<Rightarrow> world \<Rightarrow> world" where
  "run_leave this serversExist isThreaded w =
     (let w1 = stopAllTimers this w;
          w2 = emit_scriptEnding this w1;
          w3 = release_entity_messages this serversExist isThreaded w2;
          w4 = emit (Finished this) w3;
          w5 = update_self this (\<lambda>e. e\<lparr>isRunning := False\<rparr>) w4;
          w6 = emit (RunningStateChanged this) w5;
          w7 = emit (DoneRunning this) w6
      in w7\<lparr>doneRunningThisScript := True\<rparr>)"

subsection \<open>What happens around a thread: event delivery and the other threads\<close>

text \<open>
  While a thread sleeps or runs the event loop (\<open>processEvents\<close>, \<open>QEventLoop::exec\<close>),
  queued events are delivered and the other threads go on. Each thing that can happen
  is a function of this file: a timer's timeout, a call of \<open>evaluate\<close>, a loader
  finishing, \<open>stop()\<close>, \<open>nodeKilled\<close>, a thread that is inside \<open>evaluate\<close> returning from the
  interpreter, a thread entering \<open>run\<close>, a thread whose loop has ended leaving \<open>run\<close>.
\<close>

datatype happening =
    Nothing
  | TimerTimeout timer_id
  | Evaluates engine_id program
  | LoaderFinished engine_id "program option list" scriptvalue
  | Stops engine_id
  | NodeIsKilled engine_id uuid
  | LeavesEvaluate engine_id scriptvalue bool
  | EntersRun engine_id
  | LeavesRun engine_id bool bool

fun happen :: "happening \<Rightarrow> world \<Rightarrow> world" where
  "happen Nothing w = w"
| "happen (TimerTimeout t) w = qt_timeout t w"
| "happen (Evaluates this p) w = fst (evaluate this p w)"
| "happen (LoaderFinished this contents callback) w =
     evaluateScripts (map (map_option (evaluate this)) contents)
       (isFunction callback) (call_function this callback) w"
| "happen (Stops this) w = stop this w"
| "happen (NodeIsKilled this u) w = nodeKilled this u w"
| "happen (LeavesEvaluate this result throws) w = evaluate_leave this result throws w"
| "happen (EntersRun this) w = run_enter this w"
| "happen (LeavesRun this serversExist isThreaded) w = run_leave this serversExist isThreaded w"

definition happen_all :: "happening list \<Rightarrow> world \<Rightarrow> world" where
  "happen_all hs w = fold happen hs w"

subsection \<open>The loop of run\<close>

text \<open>
  What one iteration meets: what happens while the thread sleeps, what happens inside
  \<open>processEvents\<close>, the state of the entity packet sender and the node list.
\<close>

record frame =
  whileAsleep :: "happening list"
  whileProcessingEvents :: "happening list"
  serversExist :: bool
  isThreaded :: bool
  nodes :: "Node list"

definition report_exception :: "engine_id \<Rightarrow> world \<Rightarrow> world" where
  "report_exception this w =
     (if hasUncaughtException (self this w)
      then clearExceptions this (emit (ErrorMessage this) w)
      else w)"

text \<open>The body of the \<open>while (!_isFinished)\<close> loop of \<open>run\<close>.\<close>

definition run_iteration :: "int \<Rightarrow> engine_id \<Rightarrow> frame \<Rightarrow> world \<Rightarrow> world \<times> loop_control" where
  "run_iteration nsamp this fr w =
     (let w1 = happen_all (whileAsleep fr) w
      in if isFinished (self this w1) then (w1, Break)
         else
           (let w2 = happen_all (whileProcessingEvents fr) w1
            in if isFinished (self this w2) then (w2, Break)
               else
                 (let w3 = release_entity_messages this (serversExist fr) (isThreaded fr) w2
                  in case avatar_frame nsamp this (nodes fr) w3 of
                       (w4, Break) \<Rightarrow> (w4, Break)
                     | (w4, Continue) \<Rightarrow>
                         (let w5 = report_exception this w4;
                              w6 = (if \<not> isFinished (self this w5) then emit (Update this) w5 else w5)
                          in (w6, Continue)))))"

text \<open>
  The loop, over the frames it meets. It returns the world in which the loop was left,
  and \<open>None\<close> when the frames run out with the loop still going.
\<close>

primrec run_loop :: "int \<Rightarrow> engine_id \<Rightarrow> frame list \<Rightarrow> world \<Rightarrow> world option" where
  "run_loop nsamp this [] w = (if isFinished (self this w) then Some w else None)"
| "run_loop nsamp this (fr # frs) w =
     (if isFinished (self this w) then Some w
      else (case run_iteration nsamp this fr w of
              (w1, Break) \<Rightarrow> Some w1
            | (w1, Continue) \<Rightarrow> run_loop nsamp this frs w1))"

definition run :: "int \<Rightarrow> engine_id \<Rightarrow> frame list \<Rightarrow> bool \<Rightarrow> bool \<Rightarrow> world \<Rightarrow> world option" where
  "run nsamp this frs serversExistAtEnd isThreadedAtEnd w =
     (case run_loop nsamp this frs (run_enter this w) of
        None \<Rightarrow> None
      | Some w1 \<Rightarrow> Some (run_leave this serversExistAtEnd isThreadedAtEnd w1))"

subsection \<open>stopAllScripts and waitTillDoneRunning\<close>

text \<open>
  Modelled from the spec: the getters \<open>isRunning()\<close> and \<open>evaluatePending()\<close> are declared
  in the class header, which is not among the sources; the spec reads them as the
  \<open>_isRunning\<close> flag and as \<open>pendingEvaluations > 0\<close>.
\<close>

definition isRunning_get :: "engine_id \<Rightarrow> world \<Rightarrow> bool" where
  "isRunning_get this w = isRunning (self this w)"

definition evaluatePending :: "engine_id \<Rightarrow> world \<Rightarrow> bool" where
  "evaluatePending this w = (evaluatesPending (self this w) > 0)"

text \<open>
  \<open>stopAllScripts\<close> blocks in two places, and what happens in the world during each
  blocking call is given from outside, one batch of happenings per call.
  \<open>loop_exec\<close> is \<open>QEventLoop::exec\<close> with \<open>evaluationFinished\<close> of the engine
  connected to \<open>quit\<close>: it returns once the engine has emitted the signal, so a batch in
  which that never happens is a call that does not return (\<open>None\<close>).
\<close>

fun is_evaluationFinished_of :: "engine_id \<Rightarrow> event \<Rightarrow> bool" where
  "is_evaluationFinished_of this (EvaluationFinished i v b) = (i = this)"
| "is_evaluationFinished_of this _ = False"

definition loop_exec :: "engine_id \<Rightarrow> happening list \<Rightarrow> world \<Rightarrow> world option" where
  "loop_exec this batch w =
     (let w1 = happen_all batch w
      in if list_ex (is_evaluationFinished_of this) (drop (length (trace w)) (trace w1))
         then Some w1 else None)"

text \<open>\<open>while (scriptEngine->evaluatePending()) { ... loop.exec(); }\<close>\<close>

primrec wait_evaluations ::
  "engine_id \<Rightarrow> happening list list \<Rightarrow> world \<Rightarrow> (world \<times> happening list list) option" where
  "wait_evaluations this [] w = (if evaluatePending this w then None else Some (w, []))"
| "wait_evaluations this (batch # batches) w =
     (if evaluatePending this w then
        (case loop_exec this batch w of
           None \<Rightarrow> None
         | Some w1 \<Rightarrow> wait_evaluations this batches w1)
      else Some (w, batch # batches))"

text \<open>\<open>while (!_doneRunningThisScript) { QCoreApplication::processEvents(); }\<close>\<close>

primrec poll_doneRunning ::
  "happening list list \<Rightarrow> world \<Rightarrow> (world \<times> happening list list) option" where
  "poll_doneRunning [] w = (if doneRunningThisScript w then Some (w, []) else None)"
| "poll_doneRunning (batch # batches) w =
     (if doneRunningThisScript w then Some (w, batch # batches)
      else poll_doneRunning batches (happen_all batch w))"

definition waitTillDoneRunning ::
  "engine_id \<Rightarrow> happening list list \<Rightarrow> world \<Rightarrow> (world \<times> happening list list) option" where
  "waitTillDoneRunning this batches w =
     (if isRunning (self this w)
      then poll_doneRunning batches (w\<lparr>doneRunningThisScript := False\<rparr>)
      else Some (w, batches))"

definition disconnect :: "engine_id \<Rightarrow> qobject \<Rightarrow> world \<Rightarrow> world" where
  "disconnect this receiver w =
     update_self this (\<lambda>e. e\<lparr>connectedReceivers := removeAll receiver (connectedReceivers e)\<rparr>) w"

text \<open>
  The \<open>while (i.hasNext())\<close> loop of \<open>stopAllScripts\<close>, over the engines of the set in
  the order of the iterator; \<open>i.remove()\<close> takes the current engine out of the set.
\<close>

primrec sweep ::
  "qobject \<Rightarrow> engine_id list \<Rightarrow> happening list list \<Rightarrow> world
     \<Rightarrow> (world \<times> happening list list) option" where
  "sweep application [] batches w = Some (w, batches)"
| "sweep application (scriptEngine # rest) batches w =
     (if isRunning_get scriptEngine w then
        (case wait_evaluations scriptEngine batches w of
           None \<Rightarrow> None
         | Some (w1, batches1) \<Rightarrow>
             (let w2 = disconnect scriptEngine application w1;
                  w3 = stop scriptEngine w2
              in case waitTillDoneRunning scriptEngine batches1 w3 of
                   None \<Rightarrow> None
                 | Some (w4, batches4) \<Rightarrow>
                     sweep application rest batches4
                       (w4\<lparr>allKnownScriptEngines :=
                             removeAll scriptEngine (allKnownScriptEngines w4)\<rparr>)))
      else sweep application rest batches w)"

definition stopAllScripts ::
  "qobject \<Rightarrow> happening list list \<Rightarrow> world \<Rightarrow> (world \<times> happening list list) option" where
  "stopAllScripts application batches w =
     (let w1 = w\<lparr>stoppingAllScripts := True\<rparr>
      in case sweep application (allKnownScriptEngines w1) batches w1 of
           None \<Rightarrow> None
         | Some (w2, batches2) \<Rightarrow> Some (w2\<lparr>stoppingAllScripts := False\<rparr>, batches2))"

subsection \<open>Construction\<close>

text \<open>
  The member initialisers of the constructor; \<open>_evaluatesPending\<close> is not among them and
  starts at zero. The constructor then inserts the engine into \<open>_allKnownScriptEngines\<close>.
\<close>

definition new_ScriptEngine :: "program \<Rightarrow> ScriptEngine" where
  "new_ScriptEngine contents =
     \<lparr>scriptContents = contents, isFinished = False, isRunning = False, isInitialized = False,
      isAvatar = False, timerFunctionMap = [], isListeningToAudioStream = False,
      avatarSound = None, numAvatarSoundSentBytes = 0, avatarData = None,
      outgoingScriptAudioSequenceNumbers = Map.empty, evaluatesPending = 0,
      evaluatesPendingWritten = [], hasUncaughtException = False, connectedReceivers = []\<rparr>"

definition construct :: "engine_id \<Rightarrow> program \<Rightarrow> world \<Rightarrow> world" where
  "construct this contents w =
     w\<lparr>engines := (engines w)(this := new_ScriptEngine contents),
       allKnownScriptEngines := List.insert this (allKnownScriptEngines w)\<rparr>"

definition no_engines :: world where
  "no_engines =
     \<lparr>engines = (\<lambda>_. new_ScriptEngine (Program [] InvalidValue False)), qtimers = Map.empty,
      nextTimer = 0, allKnownScriptEngines = [], stoppingAllScripts = False,
      doneRunningThisScript = False, trace = []\<rparr>"

subsection \<open>Notions used to state the properties\<close>

text \<open>
  The nesting depth of evaluations in a program: one for the program itself, plus the
  deepest chain of programs it includes. A function passed to a timer is not called by
  the call that passes it.
\<close>

primrec nesting_value :: "scriptvalue \<Rightarrow> nat"
and nesting_body :: "function_body \<Rightarrow> nat"
and nesting_program :: "program \<Rightarrow> nat"
and nesting_call :: "hostcall \<Rightarrow> nat"
where
  "nesting_value InvalidValue = 0"
| "nesting_value (NumberValue n) = 0"
| "nesting_value (StringValue s) = 0"
| "nesting_value (FunctionValue body) = nesting_body body"
| "nesting_body (FunctionBody calls throws) = Max (set (0 # map nesting_call calls))"
| "nesting_program (Program calls result throws) = Suc (Max (set (0 # map nesting_call calls)))"
| "nesting_call (CallSetInterval function intervalMS) = 0"
| "nesting_call (CallSetTimeout function timeoutMS) = 0"
| "nesting_call (CallClearTimer timer) = 0"
| "nesting_call CallStop = 0"
| "nesting_call (CallPrint message) = 0"
| "nesting_call (CallLoad loadFile) = 0"
| "nesting_call (CallInclude contents callback loaderFinished) =
     max (Max (set (0 # map (\<lambda>c. case c of None \<Rightarrow> 0 | Some n \<Rightarrow> n)
                          (map (map_option nesting_program) contents))))
         (nesting_value callback)"
| "nesting_call (OtherThreadSetsStoppingAll b) = 0"

text \<open>
  \<open>pending_within d this w w'\<close>: from \<open>w\<close> to \<open>w'\<close> the counter \<open>_evaluatesPending\<close> of the
  engine ends where it started, and every value written to it on the way lies between
  the starting value and the starting value plus \<open>d\<close>.
\<close>

definition pending_within :: "nat \<Rightarrow> engine_id \<Rightarrow> world \<Rightarrow> world \<Rightarrow> bool" where
  "pending_within d this w w' \<longleftrightarrow>
     evaluatesPending (self this w') = evaluatesPending (self this w) \<and>
     (\<exists>vs. evaluatesPendingWritten (self this w') = evaluatesPendingWritten (self this w) @ vs \<and>
           (\<forall>v\<in>set vs. evaluatesPending (self this w) \<le> v \<and>
                        v \<le> evaluatesPending (self this w) + int d))"

text \<open>
  \<open>timer_calls t tr\<close> counts the invocations of the callback of timer \<open>t\<close> in a trace, and
  \<open>calls_finding_entry t tr\<close> those of them that were entered with \<open>t\<close> still a key of the
  timer map. \<open>one_shot_left t c z w\<close>: \<open>t\<close> is an identity the store has handed out, at
  most \<open>z\<close> invocations of \<open>t\<close> so far found its entry in the map, and if the timer is still
  alive it is single-shot and one more invocation stays within the budget \<open>c\<close>.
\<close>

fun is_call_of :: "timer_id \<Rightarrow> event \<Rightarrow> bool" where
  "is_call_of t (TimerFunctionCalled i t' keys) = (t' = t)"
| "is_call_of t _ = False"

fun is_call_finding_entry :: "timer_id \<Rightarrow> event \<Rightarrow> bool" where
  "is_call_finding_entry t (TimerFunctionCalled i t' keys) = (t' = t \<and> t \<in> set keys)"
| "is_call_finding_entry t _ = False"

definition timer_calls :: "timer_id \<Rightarrow> event list \<Rightarrow> nat" where
  "timer_calls t tr = length (filter (is_call_of t) tr)"

definition calls_finding_entry :: "timer_id \<Rightarrow> event list \<Rightarrow> nat" where
  "calls_finding_entry t tr = length (filter (is_call_finding_entry t) tr)"

definition one_shot_left :: "timer_id \<Rightarrow> nat \<Rightarrow> nat \<Rightarrow> world \<Rightarrow> bool" where
  "one_shot_left t c z w \<longleftrightarrow>
     t < nextTimer w \<and>
     calls_finding_entry t (trace w) \<le> z \<and>
     (case qtimers w t of
        None \<Rightarrow> timer_calls t (trace w) \<le> c
      | Some q \<Rightarrow> singleShot q \<and> Suc (timer_calls t (trace w)) \<le> c)"

text \<open>
  \<open>sequences_to this u tr\<close> lists, in order, the sequence numbers of the audio datagrams
  the engine sent to peer \<open>u\<close>. \<open>counting_from this u before w\<close>: since the trace read
  \<open>before\<close>, the numbers sent to \<open>u\<close> are 0, 1, 2, ... as 16-bit words, and the counter
  holds the next one.
\<close>

fun sequence_to :: "engine_id \<Rightarrow> uuid \<Rightarrow> event \<Rightarrow> 16 word list" where
  "sequence_to this u (AudioDatagram i u' s k p) = (if i = this \<and> u' = u then [s] else [])"
| "sequence_to this u _ = []"

definition sequences_to :: "engine_id \<Rightarrow> uuid \<Rightarrow> event list \<Rightarrow> 16 word list" where
  "sequences_to this u tr = concat (map (sequence_to this u) tr)"

definition current_sequence :: "engine_id \<Rightarrow> uuid \<Rightarrow> world \<Rightarrow> 16 word" where
  "current_sequence this u w =
     (case outgoingScriptAudioSequenceNumbers (self this w) u of None \<Rightarrow> 0 | Some s \<Rightarrow> s)"

definition counting_from :: "engine_id \<Rightarrow> uuid \<Rightarrow> 16 word list \<Rightarrow> world \<Rightarrow> bool" where
  "counting_from this u before w \<longleftrightarrow>
     (\<exists>n. sequences_to this u (trace w) = before @ map word_of_nat [0..<n] \<and>
          current_sequence this u w = word_of_nat n)"

text \<open>\<open>registry_kept w w'\<close>: the set \<open>_allKnownScriptEngines\<close> is the same in both worlds.\<close>

definition registry_kept :: "world \<Rightarrow> world \<Rightarrow> bool" where
  "registry_kept w w' \<longleftrightarrow> allKnownScriptEngines w' = allKnownScriptEngines w"

subsection \<open>Example worlds\<close>

definition including_program :: program where
  "including_program =
     Program [CallInclude [Some (Program [CallStop] (NumberValue 1) False)] InvalidValue True,
              CallSetTimeout (FunctionValue (FunctionBody [CallStop] False)) 1]
       (NumberValue 2) True"

definition avatar_engine :: "bool \<Rightarrow> byte list option \<Rightarrow> ScriptEngine" where
  "avatar_engine listening sound =
     (new_ScriptEngine (Program [] InvalidValue False))
       \<lparr>isAvatar := True, avatarData := Some [], isListeningToAudioStream := listening,
        avatarSound := sound\<rparr>"

definition avatar_world :: "bool \<Rightarrow> byte list option \<Rightarrow> world" where
  "avatar_world listening sound =
     no_engines\<lparr>engines := (engines no_engines)(0 := avatar_engine listening sound),
                allKnownScriptEngines := [0]\<rparr>"

definition quiet_frame :: frame where
  "quiet_frame =
     \<lparr>whileAsleep = [], whileProcessingEvents = [], serversExist = False, isThreaded = False,
      nodes = [\<lparr>getUUID = 7, getType = AudioMixer\<rparr>]\<rparr>"

definition two_running :: world where
  "two_running =
     run_enter 1 (run_enter 0
       (construct 1 (Program [] InvalidValue False)
          (construct 0 (Program [] InvalidValue False) no_engines)))"

definition one_idle_one_running :: world where
  "one_idle_one_running =
     run_enter 0
       (construct 1 (Program [] InvalidValue False)
          (construct 0 (Program [] InvalidValue False) no_engines))"

definition one_shot_world :: world where
  "one_shot_world =
     fst (setTimeout 0
            (FunctionValue
               (FunctionBody [CallSetInterval (FunctionValue (FunctionBody [] False)) 5] False))
            1 no_engines)"

section \<open>Properties\<close>

subsection \<open>Timers while all scripts are being stopped\<close>

text \<open>
  C7. While the static flag \<open>_stoppingAllScripts\<close> is set, \<open>setInterval\<close> and \<open>setTimeout\<close>
  on any engine return no handle and leave the whole world as it was: the timer map is
  unchanged and no timer object is created or started.
\<close>

theorem timers_rejected_while_stopping:
  "stoppingAllScripts w \<Longrightarrow>
     setInterval this function intervalMS w = (w, None) \<and>
     setTimeout this function timeoutMS w = (w, None)"
  by (simp add: setInterval_def setTimeout_def)

theorem timers_rejected_while_stopping_witness:
  "stoppingAllScripts (no_engines\<lparr>stoppingAllScripts := True\<rparr>) \<and>
   setInterval 0 (FunctionValue (FunctionBody [CallStop] False)) 10
     (no_engines\<lparr>stoppingAllScripts := True\<rparr>)
     = (no_engines\<lparr>stoppingAllScripts := True\<rparr>, None) \<and>
   setTimeout 0 (FunctionValue (FunctionBody [CallStop] False)) 10
     (no_engines\<lparr>stoppingAllScripts := True\<rparr>)
     = (no_engines\<lparr>stoppingAllScripts := True\<rparr>, None)"
  using timers_rejected_while_stopping [of "no_engines\<lparr>stoppingAllScripts := True\<rparr>" 0
        "FunctionValue (FunctionBody [CallStop] False)" 10 10]
  by simp

subsection \<open>Stopping a timer that is not in the map\<close>

lemma map_of_delete_same: "map_of (AList.delete t m) t = None"
  by (simp add: AList.delete_conv')

lemma contains_after_stopTimer:
  "\<not> contains (timerFunctionMap (self this (stopTimer this timer w))) timer"
  by (simp add: stopTimer_def contains_def self_def update_self_def qtimer_stop_def
      qtimer_delete_def Let_def map_of_delete_same split: option.splits)

text \<open>
  C10. \<open>stopTimer\<close> with a handle that is not a key of the engine's timer map changes
  nothing in the world: no map, no timer object, no other state. Hence stopping the
  same handle a second time does nothing.
\<close>

theorem stopTimer_unknown_handle:
  "(\<not> contains (timerFunctionMap (self this w)) timer \<longrightarrow> stopTimer this timer w = w) \<and>
   stopTimer this timer (stopTimer this timer w) = stopTimer this timer w"
proof
  show "\<not> contains (timerFunctionMap (self this w)) timer \<longrightarrow> stopTimer this timer w = w"
    by (simp add: stopTimer_def)
  have "\<not> contains (timerFunctionMap (self this (stopTimer this timer w))) timer"
    by (rule contains_after_stopTimer)
  then show "stopTimer this timer (stopTimer this timer w) = stopTimer this timer w"
    by (simp add: stopTimer_def [of this timer "stopTimer this timer w"])
qed

theorem stopTimer_unknown_handle_witness:
  "\<not> contains (timerFunctionMap (self 0 (fst (setTimeout 0 InvalidValue 5 no_engines)))) 7 \<and>
   stopTimer 0 7 (fst (setTimeout 0 InvalidValue 5 no_engines))
     = fst (setTimeout 0 InvalidValue 5 no_engines) \<and>
   stopTimer 0 0 (stopTimer 0 0 (fst (setTimeout 0 InvalidValue 5 no_engines)))
     = stopTimer 0 0 (fst (setTimeout 0 InvalidValue 5 no_engines))"
proof -
  have unknown:
    "\<not> contains (timerFunctionMap (self 0 (fst (setTimeout 0 InvalidValue 5 no_engines)))) 7"
    by (simp add: contains_def self_def setTimeout_def setupTimerWithInterval_def update_self_def
        no_engines_def new_ScriptEngine_def Let_def)
  show ?thesis
    using unknown
      stopTimer_unknown_handle [of 0 "fst (setTimeout 0 InvalidValue 5 no_engines)" 7]
      stopTimer_unknown_handle [of 0 "fst (setTimeout 0 InvalidValue 5 no_engines)" 0]
    by blast
qed

subsection \<open>The trace only grows\<close>

lemma trace_prefix_trans:
  "prefix (trace w) (trace w1) \<Longrightarrow> prefix (trace w1) (trace w2) \<Longrightarrow> prefix (trace w) (trace w2)"
  by (rule prefix_order.trans)

lemma trace_setInterval: "prefix (trace w) (trace (fst (setInterval i f ms w)))"
  by (simp add: setInterval_def setupTimerWithInterval_def update_self_def Let_def)

lemma trace_setTimeout: "prefix (trace w) (trace (fst (setTimeout i f ms w)))"
  by (simp add: setTimeout_def setupTimerWithInterval_def update_self_def Let_def)

lemma trace_stopTimer: "prefix (trace w) (trace (stopTimer i t w))"
  by (simp add: stopTimer_def qtimer_stop_def qtimer_delete_def update_self_def Let_def
      split: option.splits)

lemma trace_stop: "prefix (trace w) (trace (stop i w))"
  by (simp add: stop_def emit_def update_self_def)

lemma trace_print: "prefix (trace w) (trace (print i m w))"
  by (simp add: print_def emit_def)

lemma trace_load: "prefix (trace w) (trace (load i f w))"
  by (simp add: load_def emit_def)

lemma trace_evaluate_leave:
  "trace (evaluate_leave i result throws w) = trace w @ [EvaluationFinished i result throws]"
  by (simp add: evaluate_leave_def Let_def clearExceptions_def emit_def self_def update_self_def
      set_evaluatesPending_def)

lemma trace_evaluate_enter: "trace (evaluate_enter i w) = trace w"
  by (simp add: evaluate_enter_def update_self_def)

lemma trace_run_in_order:
  "(\<And>step w. step \<in> set steps \<Longrightarrow> prefix (trace w) (trace (step w))) \<Longrightarrow>
   prefix (trace w) (trace (run_in_order steps w))"
proof (induction steps arbitrary: w)
  case Nil
  then show ?case by (simp add: run_in_order_def)
next
  case (Cons step steps)
  have "prefix (trace w) (trace (step w))" using Cons.prems by simp
  moreover have "prefix (trace (step w)) (trace (run_in_order steps (step w)))"
    using Cons.IH Cons.prems by simp
  ultimately show ?case
    using trace_prefix_trans by (simp add: run_in_order_def)
qed

lemma trace_evaluateScripts:
  assumes evs: "\<And>eval w. Some eval \<in> set evaluations \<Longrightarrow> prefix (trace w) (trace (fst (eval w)))"
    and cb: "\<And>w. prefix (trace w) (trace (callCallback w))"
  shows "prefix (trace w) (trace (evaluateScripts evaluations isF callCallback w))"
proof -
  have loop: "prefix (trace w) (trace
      (fold (\<lambda>contents w. case contents of None \<Rightarrow> w | Some eval \<Rightarrow> fst (eval w)) evaluations w))"
    using evs
  proof (induction evaluations arbitrary: w)
    case Nil
    then show ?case by simp
  next
    case (Cons c cs)
    have step: "prefix (trace w) (trace (case c of None \<Rightarrow> w | Some eval \<Rightarrow> fst (eval w)))"
      using Cons.prems by (cases c) simp_all
    have "prefix (trace (case c of None \<Rightarrow> w | Some eval \<Rightarrow> fst (eval w)))
       (trace (fold (\<lambda>contents w. case contents of None \<Rightarrow> w | Some eval \<Rightarrow> fst (eval w)) cs
          (case c of None \<Rightarrow> w | Some eval \<Rightarrow> fst (eval w))))"
      using Cons.IH Cons.prems by simp
    with step show ?case using trace_prefix_trans by simp
  qed
  show ?thesis
    unfolding evaluateScripts_def Let_def
    using loop cb trace_prefix_trans by (cases isF) auto
qed

lemma trace_script:
  "\<forall>w. prefix (trace w) (trace (call_function i v w))"
  "\<forall>w. prefix (trace w) (trace (run_function_body i b w))"
  "\<forall>w. prefix (trace w) (trace (fst (evaluate i p w)))"
  "\<forall>w. prefix (trace w) (trace (run_call i c w))"
proof (induct v and b and p and c)
  case (FunctionBody calls throws)
  show ?case
  proof
    fix w
    have "prefix (trace w) (trace (run_in_order (map (run_call i) calls) w))"
      using FunctionBody by (intro trace_run_in_order) auto
    then show "prefix (trace w) (trace (run_function_body i (FunctionBody calls throws) w))"
      by (simp add: update_self_def)
  qed
next
  case (Program calls result throws)
  show ?case
  proof
    fix w
    have "prefix (trace (evaluate_enter i w))
        (trace (run_in_order (map (run_call i) calls) (evaluate_enter i w)))"
      using Program by (intro trace_run_in_order) auto
    then show "prefix (trace w) (trace (fst (evaluate i (Program calls result throws) w)))"
      by (simp add: Let_def trace_evaluate_leave trace_evaluate_enter)
  qed
next
  case (CallInclude contents callback loaderFinished)
  show ?case
  proof
    fix w
    have "prefix (trace w) (trace
       (evaluateScripts (map (map_option (evaluate i)) contents) (isFunction callback)
          (call_function i callback) w))"
      using CallInclude by (intro trace_evaluateScripts) (auto simp: map_option_case split: option.splits)
    then show "prefix (trace w) (trace (run_call i (CallInclude contents callback loaderFinished) w))"
      by simp
  qed
qed (simp_all add: trace_setInterval trace_setTimeout trace_stopTimer trace_stop trace_print trace_load)

lemma trace_timerFired: "prefix (trace w) (trace (timerFired i t w))"
proof -
  let ?w1 = "retire_timer i t w"
  have a: "trace ?w1 = trace w"
    by (simp add: retire_timer_def qtimer_delete_def update_self_def)
  have "prefix (trace (emit (TimerFunctionCalled i t (map fst (timerFunctionMap (self i ?w1)))) ?w1))
      (trace (call_function i (timerFunction_of i t w)
         (emit (TimerFunctionCalled i t (map fst (timerFunctionMap (self i ?w1)))) ?w1)))"
    using trace_script(1) by blast
  then have "prefix (trace w)
      (trace (call_function i (timerFunction_of i t w)
         (emit (TimerFunctionCalled i t (map fst (timerFunctionMap (self i ?w1)))) ?w1)))"
    using a by (auto simp: emit_def prefix_def)
  then show ?thesis using a by (simp add: timerFired_def Let_def)
qed

lemma trace_qt_timeout: "prefix (trace w) (trace (qt_timeout t w))"
proof (cases "qtimers w t")
  case None
  then show ?thesis by (simp add: qt_timeout_def)
next
  case (Some q)
  have "trace (if singleShot q then qtimer_stop t w else w) = trace w"
    by (simp add: qtimer_stop_def split: option.splits)
  then show ?thesis
    using Some trace_timerFired [of "if singleShot q then qtimer_stop t w else w" "parent q" t]
    by (simp add: qt_timeout_def)
qed

lemma trace_fold_stopTimer: "trace (fold (\<lambda>timer. stopTimer i timer) ts w) = trace w"
proof (induction ts arbitrary: w)
  case Nil
  then show ?case by simp
next
  case (Cons t ts)
  have "trace (stopTimer i t w) = trace w"
    by (simp add: stopTimer_def qtimer_stop_def qtimer_delete_def update_self_def Let_def
        split: option.splits)
  then show ?case using Cons by simp
qed

lemma trace_run_leave: "prefix (trace w) (trace (run_leave i sv th w))"
  by (simp add: run_leave_def Let_def emit_def update_self_def release_entity_messages_def
      emit_scriptEnding_def stopAllTimers_def trace_fold_stopTimer)

lemma trace_run_enter: "prefix (trace w) (trace (run_enter i w))"
proof -
  let ?w3 = "emit (RunningStateChanged i)
      (update_self i (\<lambda>e. e\<lparr>isRunning := True, isFinished := False\<rparr>)
         (if \<not> isInitialized (self i w) then init i w else w))"
  have a: "prefix (trace w) (trace ?w3)"
    by (simp add: emit_def update_self_def init_def)
  have "prefix (trace ?w3) (trace (fst (evaluate i (scriptContents (self i ?w3)) ?w3)))"
    using trace_script(3) by blast
  then show ?thesis
    using a trace_prefix_trans unfolding run_enter_def Let_def by blast
qed

lemma trace_happen: "prefix (trace w) (trace (happen h w))"
proof (cases h)
  case (LoaderFinished i contents callback)
  have "prefix (trace w) (trace
     (evaluateScripts (map (map_option (evaluate i)) contents) (isFunction callback)
        (call_function i callback) w))"
    using trace_script(1) trace_script(3)
    by (intro trace_evaluateScripts) (auto simp: map_option_case split: option.splits)
  then show ?thesis using LoaderFinished by simp
qed (use trace_script(3) in \<open>simp_all add: trace_qt_timeout trace_stop trace_evaluate_leave
      trace_run_enter trace_run_leave nodeKilled_def update_self_def\<close>)

lemma trace_happen_all: "prefix (trace w) (trace (happen_all hs w))"
  unfolding happen_all_def
proof (induction hs arbitrary: w)
  case Nil
  then show ?case by simp
next
  case (Cons h hs)
  show ?case using trace_happen [of w h] Cons [of "happen h w"] trace_prefix_trans by simp
qed

subsection \<open>A single-shot timer fires once\<close>

lemma osl_engines [simp]: "one_shot_left t c z (update_self i f w) = one_shot_left t c z w"
  by (simp add: one_shot_left_def update_self_def cong: option.case_cong)

lemma osl_flag [simp]: "one_shot_left t c z (w\<lparr>stoppingAllScripts := b\<rparr>) = one_shot_left t c z w"
  by (simp add: one_shot_left_def cong: option.case_cong)

lemma osl_done [simp]: "one_shot_left t c z (w\<lparr>doneRunningThisScript := b\<rparr>) = one_shot_left t c z w"
  by (simp add: one_shot_left_def cong: option.case_cong)

lemma finding_entry_is_call: "is_call_finding_entry t e \<Longrightarrow> is_call_of t e"
  by (cases e) simp_all

lemma osl_emit: "\<not> is_call_of t e \<Longrightarrow> one_shot_left t c z (emit e w) = one_shot_left t c z w"
  using finding_entry_is_call [of t e]
  by (auto simp: one_shot_left_def emit_def timer_calls_def calls_finding_entry_def
      cong: option.case_cong)

lemma osl_qtimer_stop: "one_shot_left t c z w \<Longrightarrow> one_shot_left t c z (qtimer_stop t' w)"
  by (auto simp: one_shot_left_def qtimer_stop_def split: option.splits)

lemma osl_qtimer_delete: "one_shot_left t c z w \<Longrightarrow> one_shot_left t c z (qtimer_delete t' w)"
  by (auto simp: one_shot_left_def qtimer_delete_def split: option.splits)

lemma osl_setup:
  "one_shot_left t c z w \<Longrightarrow> one_shot_left t c z (fst (setupTimerWithInterval i f ms s w))"
  by (auto simp: one_shot_left_def setupTimerWithInterval_def update_self_def Let_def
      split: option.splits)

lemma osl_setInterval: "one_shot_left t c z w \<Longrightarrow> one_shot_left t c z (fst (setInterval i f ms w))"
  by (simp add: setInterval_def osl_setup)

lemma osl_setTimeout: "one_shot_left t c z w \<Longrightarrow> one_shot_left t c z (fst (setTimeout i f ms w))"
  by (simp add: setTimeout_def osl_setup)

lemma osl_stopTimer: "one_shot_left t c z w \<Longrightarrow> one_shot_left t c z (stopTimer i t' w)"
  by (simp add: stopTimer_def Let_def osl_qtimer_stop osl_qtimer_delete)

lemma osl_stop: "one_shot_left t c z w \<Longrightarrow> one_shot_left t c z (stop i w)"
  by (simp add: stop_def osl_emit)

lemma osl_print: "one_shot_left t c z w \<Longrightarrow> one_shot_left t c z (print i m w)"
  by (simp add: print_def osl_emit)

lemma osl_load: "one_shot_left t c z w \<Longrightarrow> one_shot_left t c z (load i f w)"
  by (simp add: load_def osl_emit)

lemma osl_evaluate_enter: "one_shot_left t c z (evaluate_enter i w) = one_shot_left t c z w"
  by (simp add: evaluate_enter_def)

lemma osl_evaluate_leave: "one_shot_left t c z (evaluate_leave i r th w) = one_shot_left t c z w"
  by (simp add: evaluate_leave_def Let_def clearExceptions_def osl_emit)

lemma osl_run_in_order:
  "(\<And>step w. step \<in> set steps \<Longrightarrow> one_shot_left t c z w \<Longrightarrow> one_shot_left t c z (step w)) \<Longrightarrow>
   one_shot_left t c z w \<Longrightarrow> one_shot_left t c z (run_in_order steps w)"
  by (induction steps arbitrary: w) (simp_all add: run_in_order_def)

lemma osl_evaluateScripts:
  assumes evs: "\<And>eval w. Some eval \<in> set evaluations \<Longrightarrow> one_shot_left t c z w
                  \<Longrightarrow> one_shot_left t c z (fst (eval w))"
    and cb: "\<And>w. one_shot_left t c z w \<Longrightarrow> one_shot_left t c z (callCallback w)"
    and w: "one_shot_left t c z w"
  shows "one_shot_left t c z (evaluateScripts evaluations isF callCallback w)"
proof -
  have loop: "one_shot_left t c z
      (fold (\<lambda>contents w. case contents of None \<Rightarrow> w | Some eval \<Rightarrow> fst (eval w)) evaluations w)"
    using evs w
  proof (induction evaluations arbitrary: w)
    case Nil
    then show ?case by simp
  next
    case (Cons x xs)
    have "one_shot_left t c z (case x of None \<Rightarrow> w | Some eval \<Rightarrow> fst (eval w))"
      using Cons.prems by (cases x) simp_all
    then show ?case using Cons.IH Cons.prems by simp
  qed
  show ?thesis
    unfolding evaluateScripts_def Let_def using loop cb by (cases isF) auto
qed

lemma osl_script:
  "\<forall>w. one_shot_left t c z w \<longrightarrow> one_shot_left t c z (call_function i v w)"
  "\<forall>w. one_shot_left t c z w \<longrightarrow> one_shot_left t c z (run_function_body i b w)"
  "\<forall>w. one_shot_left t c z w \<longrightarrow> one_shot_left t c z (fst (evaluate i p w))"
  "\<forall>w. one_shot_left t c z w \<longrightarrow> one_shot_left t c z (run_call i k w)"
proof (induct v and b and p and k)
  case (FunctionBody calls throws)
  then show ?case by (auto intro!: osl_run_in_order)
next
  case (Program calls result throws)
  then show ?case
    by (auto simp: Let_def osl_evaluate_leave osl_evaluate_enter intro!: osl_run_in_order)
next
  case (CallInclude contents callback loaderFinished)
  show ?case
  proof (intro allI impI)
    fix w assume w: "one_shot_left t c z w"
    have "one_shot_left t c z
       (evaluateScripts (map (map_option (evaluate i)) contents) (isFunction callback)
          (call_function i callback) w)"
      using CallInclude w
      by (intro osl_evaluateScripts) (auto simp: map_option_case split: option.splits)
    then show "one_shot_left t c z (run_call i (CallInclude contents callback loaderFinished) w)"
      using w by simp
  qed
qed (simp_all add: osl_setInterval osl_setTimeout osl_stopTimer osl_stop osl_print osl_load)

lemma osl_timerFired_other:
  assumes "t' \<noteq> t" "one_shot_left t c z w"
  shows "one_shot_left t c z (timerFired i t' w)"
proof -
  have r: "one_shot_left t c z (retire_timer i t' w)"
    using assms(2) by (simp add: retire_timer_def osl_qtimer_delete)
  then have "one_shot_left t c z
      (emit (TimerFunctionCalled i t' (map fst (timerFunctionMap (self i (retire_timer i t' w)))))
         (retire_timer i t' w))"
    using assms(1) by (simp add: osl_emit)
  then show ?thesis
    using r osl_script(1) by (simp add: timerFired_def Let_def)
qed

lemma retired_not_a_key:
  "qtimers w t = Some q \<Longrightarrow>
   t \<notin> set (map fst (timerFunctionMap (self i (retire_timer i t (qtimer_stop t w)))))"
  by (simp add: retire_timer_def isActive_def qtimer_stop_def qtimer_delete_def
      update_self_def self_def AList.delete_notin_dom)

lemma osl_fire_same:
  assumes "one_shot_left t c z w" "qtimers w t = Some q" "active q"
  shows "one_shot_left t c z (timerFired i t (qtimer_stop t w))"
proof -
  let ?w1 = "retire_timer i t (qtimer_stop t w)"
  let ?call = "TimerFunctionCalled i t (map fst (timerFunctionMap (self i ?w1)))"
  have gone: "qtimers ?w1 t = None"
    using assms(2) by (simp add: retire_timer_def isActive_def qtimer_stop_def qtimer_delete_def
        update_self_def)
  have tr: "trace ?w1 = trace w" and nt: "nextTimer ?w1 = nextTimer w"
    using assms(2) by (simp_all add: retire_timer_def isActive_def qtimer_stop_def qtimer_delete_def
        update_self_def)
  have budget: "t < nextTimer w \<and> Suc (timer_calls t (trace w)) \<le> c \<and>
      calls_finding_entry t (trace w) \<le> z"
    using assms(1,2) by (simp add: one_shot_left_def)
  have unseen: "\<not> is_call_finding_entry t ?call"
    using retired_not_a_key [OF assms(2)] by simp
  have r: "one_shot_left t c z ?w1"
    using gone tr nt budget by (simp add: one_shot_left_def)
  have "one_shot_left t c z (emit ?call ?w1)"
    using gone tr nt budget unseen
    by (simp add: one_shot_left_def emit_def timer_calls_def calls_finding_entry_def)
  then show ?thesis
    using r osl_script(1) by (simp add: timerFired_def Let_def)
qed

lemma osl_qt_timeout: "one_shot_left t c z w \<Longrightarrow> one_shot_left t c z (qt_timeout t' w)"
proof -
  assume inv: "one_shot_left t c z w"
  show ?thesis
  proof (cases "qtimers w t'")
    case None
    then show ?thesis using inv by (simp add: qt_timeout_def)
  next
    case (Some q)
    show ?thesis
    proof (cases "active q")
      case False
      then show ?thesis using inv Some by (simp add: qt_timeout_def)
    next
      case True
      show ?thesis
      proof (cases "t' = t")
        case True
        have "singleShot q" using inv Some True by (simp add: one_shot_left_def)
        then show ?thesis
          using inv Some \<open>active q\<close> True osl_fire_same [of t c z w q "parent q"]
          by (simp add: qt_timeout_def)
      next
        case False
        have "one_shot_left t c z (if singleShot q then qtimer_stop t' w else w)"
          using inv by (simp add: osl_qtimer_stop)
        then show ?thesis
          using Some \<open>active q\<close> False osl_timerFired_other by (simp add: qt_timeout_def)
      qed
    qed
  qed
qed

lemma osl_fold_stopTimer:
  "one_shot_left t c z w \<Longrightarrow> one_shot_left t c z (fold (\<lambda>timer. stopTimer i timer) ts w)"
  by (induction ts arbitrary: w) (simp_all add: osl_stopTimer)

lemma osl_stopAllTimers: "one_shot_left t c z w \<Longrightarrow> one_shot_left t c z (stopAllTimers i w)"
  by (simp add: stopAllTimers_def osl_fold_stopTimer)

lemma osl_emit_scriptEnding:
  "one_shot_left t c z w \<Longrightarrow> one_shot_left t c z (emit_scriptEnding i w)"
  by (auto simp: one_shot_left_def emit_scriptEnding_def emit_def timer_calls_def
      calls_finding_entry_def split: option.splits if_splits)

lemma osl_release:
  "one_shot_left t c z w \<Longrightarrow> one_shot_left t c z (release_entity_messages i s th w)"
  by (simp add: release_entity_messages_def Let_def osl_emit)

lemma osl_run_leave: "one_shot_left t c z w \<Longrightarrow> one_shot_left t c z (run_leave i s th w)"
  by (simp add: run_leave_def Let_def osl_emit osl_release osl_emit_scriptEnding osl_stopAllTimers)

lemma osl_run_enter: "one_shot_left t c z w \<Longrightarrow> one_shot_left t c z (run_enter i w)"
  using osl_script(3) by (simp add: run_enter_def Let_def init_def osl_emit)

lemma osl_happen: "one_shot_left t c z w \<Longrightarrow> one_shot_left t c z (happen h w)"
proof (cases h)
  case (LoaderFinished i contents callback)
  assume w: "one_shot_left t c z w"
  have "one_shot_left t c z
     (evaluateScripts (map (map_option (evaluate i)) contents) (isFunction callback)
        (call_function i callback) w)"
    using w osl_script(1) osl_script(3)
    by (intro osl_evaluateScripts) (auto simp: map_option_case split: option.splits)
  then show ?thesis using LoaderFinished by simp
qed (use osl_script(3) in \<open>simp_all add: osl_qt_timeout osl_stop nodeKilled_def osl_evaluate_leave
      osl_run_enter osl_run_leave\<close>)

lemma osl_happen_all: "one_shot_left t c z w \<Longrightarrow> one_shot_left t c z (happen_all hs w)"
  by (induction hs arbitrary: w) (simp_all add: happen_all_def osl_happen)

text \<open>
  C5. Let \<open>t\<close> be a live single-shot timer. When it fires with a valid callback, the
  first thing added to the trace is the call of its function, and the keys of the timer
  map recorded with that call, which are the map as the callback finds it on entry, do
  not hold \<open>t\<close>: \<open>timerFired\<close> has removed \<open>t\<close> from the map of its engine and deleted the
  timer object before the call. And whatever happens from then on (timeouts of any
  timer, evaluations, loaders finishing, stops, threads entering and leaving \<open>run\<close>),
  the function of \<open>t\<close> is called at most once, and never with \<open>t\<close> among the keys of the map.
\<close>

theorem single_shot_timer_fires_once:
  assumes "qtimers w t = Some q" and "singleShot q" and "t < nextTimer w"
  shows "(active q \<and> isValid (timerFunction_of (parent q) t w) \<longrightarrow>
            (\<exists>keys later.
                trace (qt_timeout t w) = trace w @ TimerFunctionCalled (parent q) t keys # later \<and>
                t \<notin> set keys) \<and>
            qt_timeout t w =
              call_function (parent q) (timerFunction_of (parent q) t w)
                (emit (TimerFunctionCalled (parent q) t
                         (map fst (timerFunctionMap
                            (self (parent q) (retire_timer (parent q) t (qtimer_stop t w))))))
                   (retire_timer (parent q) t (qtimer_stop t w))) \<and>
            \<not> contains (timerFunctionMap
                  (self (parent q) (retire_timer (parent q) t (qtimer_stop t w)))) t \<and>
            qtimers (retire_timer (parent q) t (qtimer_stop t w)) t = None) \<and>
         (\<exists>later. trace (happen_all hs w) = trace w @ later \<and>
                  timer_calls t later \<le> 1 \<and>
                  calls_finding_entry t later = 0)"
proof (intro conjI impI)
  assume fire: "active q \<and> isValid (timerFunction_of (parent q) t w)"
  let ?w1 = "retire_timer (parent q) t (qtimer_stop t w)"
  let ?keys = "map fst (timerFunctionMap (self (parent q) ?w1))"
  have same_function:
    "timerFunction_of (parent q) t (qtimer_stop t w) = timerFunction_of (parent q) t w"
    using assms(1) by (simp add: timerFunction_of_def qtimer_stop_def self_def)
  show fired: "qt_timeout t w =
          call_function (parent q) (timerFunction_of (parent q) t w)
            (emit (TimerFunctionCalled (parent q) t ?keys) ?w1)"
    using assms(1,2) fire same_function by (simp add: qt_timeout_def timerFired_def Let_def)
  have tr1: "trace ?w1 = trace w"
    using assms(1) by (simp add: retire_timer_def isActive_def qtimer_stop_def qtimer_delete_def
        update_self_def)
  have "prefix (trace (emit (TimerFunctionCalled (parent q) t ?keys) ?w1)) (trace (qt_timeout t w))"
    using fired trace_script(1) by simp
  then obtain later where
    "trace (qt_timeout t w) = trace w @ TimerFunctionCalled (parent q) t ?keys # later"
    using tr1 by (auto simp: emit_def prefix_def)
  moreover have "t \<notin> set ?keys"
    using retired_not_a_key [OF assms(1)] .
  ultimately show "\<exists>keys later.
      trace (qt_timeout t w) = trace w @ TimerFunctionCalled (parent q) t keys # later \<and>
      t \<notin> set keys"
    by blast
  show "\<not> contains (timerFunctionMap (self (parent q) ?w1)) t"
    using assms(1) by (simp add: retire_timer_def isActive_def qtimer_stop_def qtimer_delete_def
        update_self_def self_def contains_def map_of_delete_same)
  show "qtimers ?w1 t = None"
    using assms(1) by (simp add: retire_timer_def isActive_def qtimer_stop_def qtimer_delete_def
        update_self_def)
next
  let ?c = "timer_calls t (trace w) + 1"
  let ?z = "calls_finding_entry t (trace w)"
  have "one_shot_left t ?c ?z w"
    using assms by (simp add: one_shot_left_def)
  then have inv: "one_shot_left t ?c ?z (happen_all hs w)"
    by (rule osl_happen_all)
  obtain later where later: "trace (happen_all hs w) = trace w @ later"
    using trace_happen_all [of w hs] by (auto simp: prefix_def)
  have "timer_calls t (trace (happen_all hs w)) \<le> ?c"
    using inv by (auto simp: one_shot_left_def split: option.splits)
  then have once: "timer_calls t later \<le> 1"
    using later by (simp add: timer_calls_def)
  have "calls_finding_entry t (trace (happen_all hs w)) \<le> ?z"
    using inv by (simp add: one_shot_left_def)
  then have unseen: "calls_finding_entry t later = 0"
    using later by (simp add: calls_finding_entry_def)
  from later once unseen
  show "\<exists>later. trace (happen_all hs w) = trace w @ later \<and>
                  timer_calls t later \<le> 1 \<and> calls_finding_entry t later = 0"
    by blast
qed

theorem single_shot_timer_fires_once_witness:
  "qtimers one_shot_world 0 = Some \<lparr>parent = 0, singleShot = True, active = True, interval = 1\<rparr> \<and>
   0 < nextTimer one_shot_world \<and>
   isValid (timerFunction_of 0 0 one_shot_world) \<and>
   trace (qt_timeout 0 one_shot_world) = [TimerFunctionCalled 0 0 []] \<and>
   (\<exists>keys later.
       trace (qt_timeout 0 one_shot_world)
         = trace one_shot_world @ TimerFunctionCalled 0 0 keys # later \<and> 0 \<notin> set keys) \<and>
   trace (happen_all [TimerTimeout 0, TimerTimeout 1, TimerTimeout 0] one_shot_world)
     = [TimerFunctionCalled 0 0 [], TimerFunctionCalled 0 1 [1]] \<and>
   (\<exists>later. trace (happen_all [TimerTimeout 0, TimerTimeout 1, TimerTimeout 0] one_shot_world)
              = trace one_shot_world @ later \<and>
            timer_calls 0 later \<le> 1 \<and> calls_finding_entry 0 later = 0)"
proof -
  have q: "qtimers one_shot_world 0 = Some \<lparr>parent = 0, singleShot = True, active = True, interval = 1\<rparr>"
    by (simp add: one_shot_world_def setTimeout_def setupTimerWithInterval_def update_self_def
        no_engines_def Let_def)
  have n: "0 < nextTimer one_shot_world"
    by (simp add: one_shot_world_def setTimeout_def setupTimerWithInterval_def update_self_def
        no_engines_def Let_def)
  have v: "isValid (timerFunction_of 0 0 one_shot_world)"
    by code_simp
  have first: "trace (qt_timeout 0 one_shot_world) = [TimerFunctionCalled 0 0 []]"
    by code_simp
  have tr: "trace (happen_all [TimerTimeout 0, TimerTimeout 1, TimerTimeout 0] one_shot_world)
      = [TimerFunctionCalled 0 0 [], TimerFunctionCalled 0 1 [1]]"
    by code_simp
  let ?q = "\<lparr>parent = 0, singleShot = True, active = True, interval = 1\<rparr>"
  let ?hs = "[TimerTimeout 0, TimerTimeout 1, TimerTimeout 0]"
  have ss: "singleShot ?q" by simp
  have act: "active ?q \<and> isValid (timerFunction_of (parent ?q) 0 one_shot_world)"
    using v by simp
  note fires_once = single_shot_timer_fires_once [OF q ss n, of ?hs]
  from fires_once act have
    "\<exists>keys later. trace (qt_timeout 0 one_shot_world)
        = trace one_shot_world @ TimerFunctionCalled (parent ?q) 0 keys # later \<and> 0 \<notin> set keys"
    by blast
  then have a: "\<exists>keys later. trace (qt_timeout 0 one_shot_world)
        = trace one_shot_world @ TimerFunctionCalled 0 0 keys # later \<and> 0 \<notin> set keys"
    by simp
  from fires_once have b: "\<exists>later. trace (happen_all ?hs one_shot_world) = trace one_shot_world @ later \<and>
            timer_calls 0 later \<le> 1 \<and> calls_finding_entry 0 later = 0"
    by blast
  from q n v first tr a b show ?thesis by blast
qed

subsection \<open>The counter of pending evaluations\<close>

lemma pw_refl: "pending_within d this w w"
  by (simp add: pending_within_def)

lemma pw_mono: "pending_within d this w w' \<Longrightarrow> d \<le> d' \<Longrightarrow> pending_within d' this w w'"
proof -
  assume a: "pending_within d this w w'" and le: "d \<le> d'"
  from a obtain vs where
    p: "evaluatesPending (self this w') = evaluatesPending (self this w)" and
    wr: "evaluatesPendingWritten (self this w') = evaluatesPendingWritten (self this w) @ vs" and
    vs: "\<forall>v\<in>set vs. evaluatesPending (self this w) \<le> v \<and>
                 v \<le> evaluatesPending (self this w) + int d"
    unfolding pending_within_def by blast
  have "\<forall>v\<in>set vs. evaluatesPending (self this w) \<le> v \<and>
                 v \<le> evaluatesPending (self this w) + int d'"
    using vs le by fastforce
  with p wr show ?thesis unfolding pending_within_def by blast
qed

lemma pw_trans:
  "pending_within d this w w1 \<Longrightarrow> pending_within d this w1 w2 \<Longrightarrow> pending_within d this w w2"
  unfolding pending_within_def
  by (elim conjE exE) (rule conjI, simp, rule_tac x="vs @ vsa" in exI, auto)

lemma pw_same:
  "evaluatesPending (self this w') = evaluatesPending (self this w) \<Longrightarrow>
   evaluatesPendingWritten (self this w') = evaluatesPendingWritten (self this w) \<Longrightarrow>
   pending_within d this w w'"
  by (simp add: pending_within_def)

lemma pw_setInterval: "pending_within d this w (fst (setInterval i f ms w))"
  by (rule pw_same)
     (simp_all add: setInterval_def setupTimerWithInterval_def self_def update_self_def Let_def)

lemma pw_setTimeout: "pending_within d this w (fst (setTimeout i f ms w))"
  by (rule pw_same)
     (simp_all add: setTimeout_def setupTimerWithInterval_def self_def update_self_def Let_def)

lemma pw_stopTimer: "pending_within d this w (stopTimer i t w)"
  by (rule pw_same)
     (simp_all add: stopTimer_def qtimer_stop_def qtimer_delete_def self_def update_self_def Let_def
        split: option.splits)

lemma pw_stop: "pending_within d this w (stop i w)"
  by (rule pw_same) (simp_all add: stop_def emit_def self_def update_self_def)

lemma pw_print: "pending_within d this w (print i m w)"
  by (rule pw_same) (simp_all add: print_def emit_def self_def)

lemma pw_load: "pending_within d this w (load i f w)"
  by (rule pw_same) (simp_all add: load_def emit_def self_def)

lemma pw_flag: "pending_within d this w (w\<lparr>stoppingAllScripts := b\<rparr>)"
  by (rule pw_same) (simp_all add: self_def)

lemma pw_exception:
  "pending_within d this w (update_self i (\<lambda>e. e\<lparr>hasUncaughtException := f e\<rparr>) w)"
  by (rule pw_same) (simp_all add: self_def update_self_def)

lemma pw_run_in_order:
  "(\<And>step w. step \<in> set steps \<Longrightarrow> pending_within d this w (step w)) \<Longrightarrow>
   pending_within d this w (run_in_order steps w)"
proof (induction steps arbitrary: w)
  case Nil
  then show ?case by (simp add: run_in_order_def pw_refl)
next
  case (Cons step steps)
  have "pending_within d this w (step w)" using Cons.prems by simp
  moreover have "pending_within d this (step w) (run_in_order steps (step w))"
    using Cons.IH Cons.prems by simp
  ultimately show ?case
    using pw_trans by (simp add: run_in_order_def)
qed

lemma pw_evaluateScripts:
  assumes evs: "\<And>eval w. Some eval \<in> set evaluations \<Longrightarrow> pending_within d this w (fst (eval w))"
    and cb: "\<And>w. pending_within d this w (callCallback w)"
  shows "pending_within d this w (evaluateScripts evaluations isF callCallback w)"
proof -
  have loop: "pending_within d this w
      (fold (\<lambda>contents w. case contents of None \<Rightarrow> w | Some eval \<Rightarrow> fst (eval w)) evaluations w)"
    using evs
  proof (induction evaluations arbitrary: w)
    case Nil
    then show ?case by (simp add: pw_refl)
  next
    case (Cons c cs)
    have step: "pending_within d this w (case c of None \<Rightarrow> w | Some eval \<Rightarrow> fst (eval w))"
      using Cons.prems by (cases c) (simp_all add: pw_refl)
    have "pending_within d this (case c of None \<Rightarrow> w | Some eval \<Rightarrow> fst (eval w))
       (fold (\<lambda>contents w. case contents of None \<Rightarrow> w | Some eval \<Rightarrow> fst (eval w)) cs
          (case c of None \<Rightarrow> w | Some eval \<Rightarrow> fst (eval w)))"
      using Cons.IH Cons.prems by simp
    with step show ?case using pw_trans by simp
  qed
  show ?thesis
    unfolding evaluateScripts_def Let_def
    using loop cb pw_trans by (cases isF) auto
qed

lemma pw_evaluate_around:
  assumes "pending_within d this (evaluate_enter this w) w2"
  shows "pending_within (Suc d) this w (evaluate_leave this result throws w2)"
proof -
  let ?p = "evaluatesPending (self this w)"
  from assms obtain vs where
    p2: "evaluatesPending (self this w2) = ?p + 1"
    and w2: "evaluatesPendingWritten (self this w2) = evaluatesPendingWritten (self this w) @ [?p + 1] @ vs"
    and vs: "\<forall>v\<in>set vs. ?p + 1 \<le> v \<and> v \<le> ?p + 1 + int d"
    by (auto simp: pending_within_def evaluate_enter_def self_def update_self_def set_evaluatesPending_def)
  have "evaluatesPending (self this (evaluate_leave this result throws w2)) = ?p"
    using p2 by (simp add: evaluate_leave_def Let_def clearExceptions_def emit_def self_def
        update_self_def set_evaluatesPending_def)
  moreover have "evaluatesPendingWritten (self this (evaluate_leave this result throws w2))
      = evaluatesPendingWritten (self this w) @ ([?p + 1] @ vs @ [?p])"
    using p2 w2 by (simp add: evaluate_leave_def Let_def clearExceptions_def emit_def self_def
        update_self_def set_evaluatesPending_def)
  moreover have "\<forall>v\<in>set ([?p + 1] @ vs @ [?p]). ?p \<le> v \<and> v \<le> ?p + int (Suc d)"
    using vs by auto
  ultimately show ?thesis unfolding pending_within_def by blast
qed

lemma pw_other_around:
  assumes "i \<noteq> this" "pending_within d this (evaluate_enter i w) w2"
  shows "pending_within d this w (evaluate_leave i result throws w2)"
proof -
  have a: "pending_within d this w (evaluate_enter i w)"
    using assms(1) by (intro pw_same) (simp_all add: evaluate_enter_def self_def update_self_def)
  have b: "pending_within d this w2 (evaluate_leave i result throws w2)"
    using assms(1) by (intro pw_same)
      (simp_all add: evaluate_leave_def Let_def clearExceptions_def emit_def self_def update_self_def)
  from a assms(2) b show ?thesis using pw_trans by blast
qed

lemma nesting_call_le: "c \<in> set calls \<Longrightarrow> nesting_call c \<le> Max (set (0 # map nesting_call calls))"
  by (intro Max_ge) auto

lemma nesting_contents_le:
  "Some p \<in> set contents \<Longrightarrow>
   nesting_program p \<le> Max (set (0 # map (\<lambda>c. case c of None \<Rightarrow> 0 | Some n \<Rightarrow> n)
                                  (map (map_option nesting_program) contents)))"
proof -
  assume "Some p \<in> set contents"
  then have "(case map_option nesting_program (Some p) of None \<Rightarrow> 0 | Some n \<Rightarrow> n)
     \<in> set (0 # map (\<lambda>c. case c of None \<Rightarrow> 0 | Some n \<Rightarrow> n) (map (map_option nesting_program) contents))"
    by (simp only: set_simps set_map) (blast intro: imageI)
  then show ?thesis by (intro Max_ge) auto
qed

lemma pw_script:
  "\<forall>w. pending_within (nesting_value v) this w (call_function i v w)"
  "\<forall>w. pending_within (nesting_body b) this w (run_function_body i b w)"
  "\<forall>w. pending_within (nesting_program p) this w (fst (evaluate i p w))"
  "\<forall>w. pending_within (nesting_call c) this w (run_call i c w)"
proof (induct v and b and p and c)
  case (FunctionBody calls throws)
  show ?case
  proof
    fix w
    have "pending_within (Max (set (0 # map nesting_call calls))) this w
        (run_in_order (map (run_call i) calls) w)"
    proof (rule pw_run_in_order)
      fix step w
      assume "step \<in> set (map (run_call i) calls)"
      then obtain c where c: "c \<in> set calls" "step = run_call i c" by auto
      have "pending_within (nesting_call c) this w (run_call i c w)"
        using FunctionBody c(1) by blast
      then show "pending_within (Max (set (0 # map nesting_call calls))) this w (step w)"
        using c nesting_call_le [OF c(1)] pw_mono by blast
    qed
    then show "pending_within (nesting_body (FunctionBody calls throws)) this w
        (run_function_body i (FunctionBody calls throws) w)"
      using pw_exception pw_trans by simp
  qed
next
  case (Program calls result throws)
  show ?case
  proof
    fix w
    let ?d = "Max (set (0 # map nesting_call calls))"
    show "pending_within (nesting_program (Program calls result throws)) this w
        (fst (evaluate i (Program calls result throws) w))"
    proof (cases "stoppingAllScripts w")
      case True
      then show ?thesis by (simp add: pw_refl)
    next
      case False
      have run: "pending_within ?d this (evaluate_enter i w)
          (run_in_order (map (run_call i) calls) (evaluate_enter i w))"
      proof (rule pw_run_in_order)
        fix step w
        assume "step \<in> set (map (run_call i) calls)"
        then obtain c where c: "c \<in> set calls" "step = run_call i c" by auto
        have "pending_within (nesting_call c) this w (run_call i c w)"
          using Program(1) c(1) by blast
        then show "pending_within ?d this w (step w)"
          using c nesting_call_le [OF c(1)] pw_mono by blast
      qed
      show ?thesis
      proof (cases "i = this")
        case True
        with run False show ?thesis by (simp add: Let_def pw_evaluate_around)
      next
        case False
        have "pending_within ?d this w
           (evaluate_leave i result throws (run_in_order (map (run_call i) calls) (evaluate_enter i w)))"
          using False run by (rule pw_other_around)
        then have "pending_within (Suc ?d) this w
           (evaluate_leave i result throws (run_in_order (map (run_call i) calls) (evaluate_enter i w)))"
          by (rule pw_mono) (rule le_SucI, rule order_refl)
        with \<open>\<not> stoppingAllScripts w\<close> show ?thesis by (simp add: Let_def)
      qed
    qed
  qed
next
  case (CallInclude contents callback loaderFinished)
  let ?d = "nesting_call (CallInclude contents callback loaderFinished)"
  show ?case
  proof
    fix w
    have evs: "\<And>eval w. Some eval \<in> set (map (map_option (evaluate i)) contents)
        \<Longrightarrow> pending_within ?d this w (fst (eval w))"
    proof -
      fix eval w
      assume "Some eval \<in> set (map (map_option (evaluate i)) contents)"
      then obtain p where p: "Some p \<in> set contents" "eval = evaluate i p"
        by (auto simp: map_option_case split: option.splits)
      have "pending_within (nesting_program p) this w (fst (evaluate i p w))"
        using CallInclude(1) p(1) by auto
      moreover have "nesting_program p \<le> ?d"
        using nesting_contents_le [OF p(1)] by simp
      ultimately show "pending_within ?d this w (fst (eval w))"
        using p(2) pw_mono by blast
    qed
    have cb: "\<And>w. pending_within ?d this w (call_function i callback w)"
      using CallInclude(2) pw_mono [of "nesting_value callback" this _ _ ?d] by simp
    have "pending_within ?d this w
       (evaluateScripts (map (map_option (evaluate i)) contents) (isFunction callback)
          (call_function i callback) w)"
      using evs cb by (rule pw_evaluateScripts)
    then show "pending_within ?d this w (run_call i (CallInclude contents callback loaderFinished) w)"
      by (simp add: pw_refl)
  qed
qed (simp_all add: pw_refl pw_setInterval pw_setTimeout
      pw_stopTimer pw_stop pw_print pw_load pw_flag)

text \<open>
  C2. Every call of \<open>evaluate\<close>, in any world and so also a call made from inside a
  running evaluation, leaves \<open>_evaluatesPending\<close> at the value it had on entry (zero for
  an outermost call). When that value is not negative, no value written to the counter
  during the call is negative, and none exceeds the entry value by more than the
  nesting depth of the program's evaluations (so the \<open>int\<close> counter, modelled without a
  width, stays in range unless evaluations nest that deep).
\<close>

theorem evaluate_restores_pending:
  assumes "0 \<le> evaluatesPending (self this w)"
  shows "evaluatesPending (self this (fst (evaluate this p w))) = evaluatesPending (self this w) \<and>
         (\<exists>vs. evaluatesPendingWritten (self this (fst (evaluate this p w)))
                 = evaluatesPendingWritten (self this w) @ vs \<and>
               (\<forall>v\<in>set vs. 0 \<le> v \<and> v \<le> evaluatesPending (self this w) + int (nesting_program p)))"
proof -
  have "pending_within (nesting_program p) this w (fst (evaluate this p w))"
    using pw_script(3) by blast
  then obtain vs where
    "evaluatesPending (self this (fst (evaluate this p w))) = evaluatesPending (self this w)"
    "evaluatesPendingWritten (self this (fst (evaluate this p w)))
       = evaluatesPendingWritten (self this w) @ vs"
    "\<forall>v\<in>set vs. evaluatesPending (self this w) \<le> v \<and>
                 v \<le> evaluatesPending (self this w) + int (nesting_program p)"
    unfolding pending_within_def by blast
  with assms show ?thesis by force
qed

lemmas world_simps = self_def update_self_def emit_def Let_def no_engines_def new_ScriptEngine_def
  evaluate_enter_def evaluate_leave_def set_evaluatesPending_def clearExceptions_def
  run_in_order_def evaluateScripts_def stop_def setTimeout_def setupTimerWithInterval_def

theorem evaluate_restores_pending_witness:
  "0 \<le> evaluatesPending (self 0 no_engines) \<and>
   evaluatesPending (self 0 (fst (evaluate 0 including_program no_engines))) = 0 \<and>
   evaluatesPendingWritten (self 0 (fst (evaluate 0 including_program no_engines))) = [1, 2, 1, 0]"
proof -
  have entry: "evaluatesPending (self 0 no_engines) = 0"
    by (simp add: self_def no_engines_def new_ScriptEngine_def)
  have written: "evaluatesPendingWritten (self 0 (fst (evaluate 0 including_program no_engines))) = [1, 2, 1, 0]"
    by (simp add: including_program_def world_simps)
  show ?thesis
    using evaluate_restores_pending [of 0 no_engines including_program] entry written by simp
qed

subsection \<open>The signal at the end of an evaluation\<close>

text \<open>
  C4, as amended. A call of \<open>evaluate\<close> that finds \<open>_stoppingAllScripts\<close> unset emits
  \<open>evaluationFinished\<close> with the program's result and with whether it ended in an
  uncaught exception, as the last thing it emits, and returns that result. A call that
  finds the flag set returns an invalid value and leaves the world, and so the trace,
  as it was.
\<close>

theorem evaluate_signals_finished:
  "(\<not> stoppingAllScripts w \<longrightarrow>
      (\<exists>evs. trace (fst (evaluate this (Program calls result throws) w))
               = trace w @ evs @ [EvaluationFinished this result throws]) \<and>
      snd (evaluate this (Program calls result throws) w) = result) \<and>
   (stoppingAllScripts w \<longrightarrow>
      evaluate this (Program calls result throws) w = (w, InvalidValue))"
proof (intro conjI impI)
  assume go: "\<not> stoppingAllScripts w"
  have "prefix (trace (evaluate_enter this w))
      (trace (run_in_order (map (run_call this) calls) (evaluate_enter this w)))"
    using trace_script(4) by (intro trace_run_in_order) auto
  then obtain evs where
    "trace (run_in_order (map (run_call this) calls) (evaluate_enter this w)) = trace w @ evs"
    by (auto simp: prefix_def trace_evaluate_enter)
  then show "\<exists>evs. trace (fst (evaluate this (Program calls result throws) w))
               = trace w @ evs @ [EvaluationFinished this result throws]"
    using go by (simp add: Let_def trace_evaluate_leave)
  show "snd (evaluate this (Program calls result throws) w) = result"
    using go by (simp add: Let_def)
next
  assume "stoppingAllScripts w"
  then show "evaluate this (Program calls result throws) w = (w, InvalidValue)" by simp
qed

theorem evaluate_signals_finished_witness:
  "\<not> stoppingAllScripts no_engines \<and>
   trace (fst (evaluate 0 including_program no_engines))
     = [RunningStateChanged 0, EvaluationFinished 0 (NumberValue 1) False,
        EvaluationFinished 0 (NumberValue 2) True] \<and>
   snd (evaluate 0 including_program no_engines) = NumberValue 2 \<and>
   stoppingAllScripts (no_engines\<lparr>stoppingAllScripts := True\<rparr>) \<and>
   evaluate 0 including_program (no_engines\<lparr>stoppingAllScripts := True\<rparr>)
     = (no_engines\<lparr>stoppingAllScripts := True\<rparr>, InvalidValue)"
proof -
  have tr: "trace (fst (evaluate 0 including_program no_engines))
     = [RunningStateChanged 0, EvaluationFinished 0 (NumberValue 1) False,
        EvaluationFinished 0 (NumberValue 2) True]"
    by (simp add: including_program_def world_simps)
  have go: "\<not> stoppingAllScripts no_engines"
    by (simp add: no_engines_def)
  show ?thesis
    using tr go
      evaluate_signals_finished [of no_engines 0
        "[CallInclude [Some (Program [CallStop] (NumberValue 1) False)] InvalidValue True,
          CallSetTimeout (FunctionValue (FunctionBody [CallStop] False)) 1]" "NumberValue 2" True]
      evaluate_signals_finished [of "no_engines\<lparr>stoppingAllScripts := True\<rparr>" 0
        "[CallInclude [Some (Program [CallStop] (NumberValue 1) False)] InvalidValue True,
          CallSetTimeout (FunctionValue (FunctionBody [CallStop] False)) 1]" "NumberValue 2" True]
    by (simp add: including_program_def)
qed

text \<open>
  The claim as stated, for every call, fails: with the flag set nothing is emitted.
\<close>

theorem evaluate_while_stopping_signals_nothing:
  "\<not> (\<exists>evs v hadError.
        trace (fst (evaluate 0 including_program (no_engines\<lparr>stoppingAllScripts := True\<rparr>)))
          = trace (no_engines\<lparr>stoppingAllScripts := True\<rparr>) @ evs @ [EvaluationFinished 0 v hadError])"
  by (simp add: including_program_def)

subsection \<open>Sequence numbers of audio packets\<close>

lemma sequences_to_append:
  "sequences_to this u (tr @ evs) = sequences_to this u tr @ sequences_to this u evs"
  by (simp add: sequences_to_def)

lemma cf_same:
  "trace w' = trace w \<Longrightarrow>
   outgoingScriptAudioSequenceNumbers (self this w') u = outgoingScriptAudioSequenceNumbers (self this w) u \<Longrightarrow>
   counting_from this u before w' = counting_from this u before w"
  by (simp add: counting_from_def current_sequence_def)

lemma cf_emit:
  "sequence_to this u e = [] \<Longrightarrow>
   counting_from this u before (emit e w) = counting_from this u before w"
  by (simp add: counting_from_def current_sequence_def emit_def self_def sequences_to_def)

lemma cf_flag [simp]:
  "counting_from this u before (w\<lparr>stoppingAllScripts := b\<rparr>) = counting_from this u before w"
  by (rule cf_same) (simp_all add: self_def)

lemma cf_done [simp]:
  "counting_from this u before (w\<lparr>doneRunningThisScript := b\<rparr>) = counting_from this u before w"
  by (rule cf_same) (simp_all add: self_def)

lemma cf_qtimer_stop [simp]:
  "counting_from this u before (qtimer_stop t w) = counting_from this u before w"
  by (rule cf_same) (simp_all add: self_def qtimer_stop_def split: option.splits)

lemma cf_qtimer_delete [simp]:
  "counting_from this u before (qtimer_delete t w) = counting_from this u before w"
  by (rule cf_same) (simp_all add: self_def qtimer_delete_def)

lemma cf_update_self:
  "(\<And>e. outgoingScriptAudioSequenceNumbers (f e) = outgoingScriptAudioSequenceNumbers e) \<Longrightarrow>
   counting_from this u before (update_self i f w) = counting_from this u before w"
  by (rule cf_same) (simp_all add: self_def update_self_def)

lemma cf_setup:
  "counting_from this u before (fst (setupTimerWithInterval i f ms s w)) = counting_from this u before w"
  by (rule cf_same) (simp_all add: setupTimerWithInterval_def Let_def self_def update_self_def)

lemma cf_setInterval:
  "counting_from this u before (fst (setInterval i f ms w)) = counting_from this u before w"
  by (simp add: setInterval_def cf_setup)

lemma cf_setTimeout:
  "counting_from this u before (fst (setTimeout i f ms w)) = counting_from this u before w"
  by (simp add: setTimeout_def cf_setup)

lemma cf_stopTimer:
  "counting_from this u before (stopTimer i t w) = counting_from this u before w"
  by (simp add: stopTimer_def Let_def cf_update_self)

lemma cf_stop: "counting_from this u before (stop i w) = counting_from this u before w"
  by (simp add: stop_def cf_emit cf_update_self)

lemma cf_print: "counting_from this u before (print i m w) = counting_from this u before w"
  by (simp add: print_def cf_emit)

lemma cf_load: "counting_from this u before (load i f w) = counting_from this u before w"
  by (simp add: load_def cf_emit)

lemma cf_evaluate_enter:
  "counting_from this u before (evaluate_enter i w) = counting_from this u before w"
  by (simp add: evaluate_enter_def set_evaluatesPending_def cf_update_self)

lemma cf_evaluate_leave:
  "counting_from this u before (evaluate_leave i r th w) = counting_from this u before w"
  by (simp add: evaluate_leave_def Let_def clearExceptions_def set_evaluatesPending_def
      cf_update_self cf_emit)

lemma cf_run_in_order:
  "(\<And>step w. step \<in> set steps \<Longrightarrow> counting_from this u before w
       \<Longrightarrow> counting_from this u before (step w)) \<Longrightarrow>
   counting_from this u before w \<Longrightarrow> counting_from this u before (run_in_order steps w)"
  by (induction steps arbitrary: w) (simp_all add: run_in_order_def)

lemma cf_evaluateScripts:
  assumes evs: "\<And>eval w. Some eval \<in> set evaluations \<Longrightarrow> counting_from this u before w
                  \<Longrightarrow> counting_from this u before (fst (eval w))"
    and cb: "\<And>w. counting_from this u before w \<Longrightarrow> counting_from this u before (callCallback w)"
    and w: "counting_from this u before w"
  shows "counting_from this u before (evaluateScripts evaluations isF callCallback w)"
proof -
  have loop: "counting_from this u before
      (fold (\<lambda>contents w. case contents of None \<Rightarrow> w | Some eval \<Rightarrow> fst (eval w)) evaluations w)"
    using evs w
  proof (induction evaluations arbitrary: w)
    case Nil
    then show ?case by simp
  next
    case (Cons x xs)
    have "counting_from this u before (case x of None \<Rightarrow> w | Some eval \<Rightarrow> fst (eval w))"
      using Cons.prems by (cases x) simp_all
    then show ?case using Cons.IH Cons.prems by simp
  qed
  show ?thesis
    unfolding evaluateScripts_def Let_def using loop cb by (cases isF) auto
qed

lemma cf_script:
  "\<forall>w. counting_from this u before w \<longrightarrow> counting_from this u before (call_function i v w)"
  "\<forall>w. counting_from this u before w \<longrightarrow> counting_from this u before (run_function_body i b w)"
  "\<forall>w. counting_from this u before w \<longrightarrow> counting_from this u before (fst (evaluate i p w))"
  "\<forall>w. counting_from this u before w \<longrightarrow> counting_from this u before (run_call i k w)"
proof (induct v and b and p and k)
  case (FunctionBody calls throws)
  then show ?case by (auto simp: cf_update_self intro!: cf_run_in_order)
next
  case (Program calls result throws)
  then show ?case
    by (auto simp: Let_def cf_evaluate_leave cf_evaluate_enter intro!: cf_run_in_order)
next
  case (CallInclude contents callback loaderFinished)
  show ?case
  proof (intro allI impI)
    fix w assume w: "counting_from this u before w"
    have "counting_from this u before
       (evaluateScripts (map (map_option (evaluate i)) contents) (isFunction callback)
          (call_function i callback) w)"
      using CallInclude w
      by (intro cf_evaluateScripts) (auto simp: map_option_case split: option.splits)
    then show "counting_from this u before (run_call i (CallInclude contents callback loaderFinished) w)"
      using w by simp
  qed
qed (simp_all add: cf_setInterval cf_setTimeout cf_stopTimer cf_stop cf_print cf_load)

lemma cf_write_to_node:
  assumes "counting_from this u before w"
  shows "counting_from this u before (write_to_node this kind packet node w)"
proof (cases "getType node = AudioMixer")
  case False
  then show ?thesis using assms by (simp add: write_to_node_def)
next
  case True
  from assms obtain n where
    seqs: "sequences_to this u (trace w) = before @ map word_of_nat [0..<n]" and
    cur: "current_sequence this u w = word_of_nat n"
    by (auto simp: counting_from_def)
  show ?thesis
  proof (cases "getUUID node = u")
    case False
    have "sequences_to this u (trace (write_to_node this kind packet node w)) = sequences_to this u (trace w)"
      using True False by (simp add: write_to_node_def next_sequence_def Let_def emit_def
          update_self_def sequences_to_def)
    moreover have "current_sequence this u (write_to_node this kind packet node w) = current_sequence this u w"
      using True False by (simp add: write_to_node_def next_sequence_def Let_def emit_def
          update_self_def current_sequence_def self_def)
    ultimately show ?thesis using seqs cur unfolding counting_from_def by auto
  next
    case same: True
    have "sequences_to this u (trace (write_to_node this kind packet node w))
        = sequences_to this u (trace w) @ [current_sequence this u w]"
      using True same by (simp add: write_to_node_def next_sequence_def Let_def emit_def
          update_self_def sequences_to_def current_sequence_def self_def)
    then have a: "sequences_to this u (trace (write_to_node this kind packet node w))
        = before @ map word_of_nat [0..<Suc n]"
      using seqs cur by simp
    have "current_sequence this u (write_to_node this kind packet node w) = current_sequence this u w + 1"
      using True same by (simp add: write_to_node_def next_sequence_def Let_def emit_def
          update_self_def current_sequence_def self_def)
    then have b: "current_sequence this u (write_to_node this kind packet node w) = word_of_nat (Suc n)"
      using cur by simp
    from a b show ?thesis unfolding counting_from_def by blast
  qed
qed

lemma cf_write_other:
  "i \<noteq> this \<Longrightarrow>
   counting_from this u before (write_to_node i kind packet node w) = counting_from this u before w"
  by (simp add: counting_from_def write_to_node_def next_sequence_def Let_def emit_def
      update_self_def sequences_to_def current_sequence_def self_def)

lemma cf_write_any:
  "counting_from this u before w \<Longrightarrow> counting_from this u before (write_to_node i kind packet node w)"
  by (cases "i = this") (simp_all add: cf_write_to_node cf_write_other)

lemma cf_eachNode_write:
  "counting_from this u before w \<Longrightarrow> counting_from this u before (eachNode_write i kind packet ns w)"
  unfolding eachNode_write_def
  by (induction ns arbitrary: w) (simp_all add: cf_write_any)

lemma cf_nodeKilled:
  "\<not> (i = this \<and> u' = u) \<Longrightarrow>
   counting_from this u before (nodeKilled i u' w) = counting_from this u before w"
  by (rule cf_same) (auto simp: nodeKilled_def self_def update_self_def)

lemma cf_timerFired:
  "counting_from this u before w \<Longrightarrow> counting_from this u before (timerFired i t w)"
  using cf_script(1)
  by (simp add: timerFired_def Let_def retire_timer_def cf_emit cf_update_self)

lemma cf_qt_timeout:
  "counting_from this u before w \<Longrightarrow> counting_from this u before (qt_timeout t w)"
  by (simp add: qt_timeout_def cf_timerFired split: option.splits)

lemma cf_fold_stopTimer:
  "counting_from this u before (fold (\<lambda>timer. stopTimer i timer) ts w) = counting_from this u before w"
  by (induction ts arbitrary: w) (simp_all add: cf_stopTimer)

lemma cf_stopAllTimers:
  "counting_from this u before (stopAllTimers i w) = counting_from this u before w"
  by (simp add: stopAllTimers_def cf_fold_stopTimer)

lemma cf_emit_scriptEnding:
  "counting_from this u before (emit_scriptEnding i w) = counting_from this u before w"
  by (simp add: counting_from_def emit_scriptEnding_def emit_def sequences_to_def
      current_sequence_def self_def)

lemma cf_release:
  "counting_from this u before (release_entity_messages i s th w) = counting_from this u before w"
  by (simp add: release_entity_messages_def Let_def cf_emit)

lemma cf_run_leave:
  "counting_from this u before (run_leave i s th w) = counting_from this u before w"
  by (simp add: run_leave_def Let_def cf_emit cf_release cf_emit_scriptEnding cf_stopAllTimers
      cf_update_self)

lemma cf_run_enter:
  "counting_from this u before w \<Longrightarrow> counting_from this u before (run_enter i w)"
  using cf_script(3) by (simp add: run_enter_def Let_def init_def cf_emit cf_update_self)

lemma cf_happen:
  assumes "NodeIsKilled this u \<noteq> h" and w: "counting_from this u before w"
  shows "counting_from this u before (happen h w)"
proof (cases h)
  case (LoaderFinished i contents callback)
  have "counting_from this u before
     (evaluateScripts (map (map_option (evaluate i)) contents) (isFunction callback)
        (call_function i callback) w)"
    using w cf_script(1) cf_script(3)
    by (intro cf_evaluateScripts) (auto simp: map_option_case split: option.splits)
  then show ?thesis using LoaderFinished by simp
next
  case (NodeIsKilled i u')
  then have "\<not> (i = this \<and> u' = u)" using assms(1) by auto
  then show ?thesis using NodeIsKilled w by (simp add: cf_nodeKilled)
qed (use w cf_script(3) in \<open>simp_all add: cf_qt_timeout cf_stop cf_evaluate_leave
      cf_run_enter cf_run_leave\<close>)

lemma cf_happen_all:
  "NodeIsKilled this u \<notin> set hs \<Longrightarrow> counting_from this u before w \<Longrightarrow>
   counting_from this u before (happen_all hs w)"
  unfolding happen_all_def
  by (induction hs arbitrary: w) (simp_all add: cf_happen)

lemma outgoing_pull:
  "outgoingScriptAudioSequenceNumbers (snd (snd (pull_avatar_sound nsamp bytes e)))
     = outgoingScriptAudioSequenceNumbers e"
  by (simp add: pull_avatar_sound_def Let_def)

lemma cf_audio_frame:
  assumes "counting_from this u before w"
  shows "counting_from this u before (fst (audio_frame nsamp i ns w))"
proof -
  obtain silentFrame samples e where pulled:
    "(case avatarSound (self i w) of
        None \<Rightarrow> (True, [], self i w)
      | Some soundByteArray \<Rightarrow> pull_avatar_sound nsamp soundByteArray (self i w)) = (silentFrame, samples, e)"
    using prod_cases3 by blast
  have "outgoingScriptAudioSequenceNumbers e = outgoingScriptAudioSequenceNumbers (self i w)"
  proof (cases "avatarSound (self i w)")
    case None
    then show ?thesis using pulled by simp
  next
    case (Some soundByteArray)
    then have "e = snd (snd (pull_avatar_sound nsamp soundByteArray (self i w)))"
      using pulled by simp
    then show ?thesis by (simp add: outgoing_pull)
  qed
  then have "counting_from this u before (update_self i (\<lambda>_. e) w) = counting_from this u before w"
    by (intro cf_same) (simp_all add: update_self_def self_def)
  then have "counting_from this u before (update_self i (\<lambda>_. e) w)"
    using assms by simp
  then show ?thesis
    using pulled by (simp add: audio_frame_def Let_def cf_eachNode_write)
qed

lemma cf_avatar_frame:
  "counting_from this u before w \<Longrightarrow> counting_from this u before (fst (avatar_frame nsamp i ns w))"
  by (simp add: avatar_frame_def Let_def cf_audio_frame cf_emit split: option.splits)

lemma cf_report_exception:
  "counting_from this u before (report_exception i w) = counting_from this u before w"
  by (simp add: report_exception_def clearExceptions_def cf_emit cf_update_self)

lemma cf_run_iteration:
  assumes "NodeIsKilled this u \<notin> set (whileAsleep fr) \<union> set (whileProcessingEvents fr)"
    and "counting_from this u before w"
  shows "counting_from this u before (fst (run_iteration nsamp i fr w))"
proof -
  let ?w1 = "happen_all (whileAsleep fr) w"
  let ?w2 = "happen_all (whileProcessingEvents fr) ?w1"
  let ?w3 = "release_entity_messages i (serversExist fr) (isThreaded fr) ?w2"
  have w1: "counting_from this u before ?w1" using assms by (simp add: cf_happen_all)
  have w2: "counting_from this u before ?w2" using assms w1 by (simp add: cf_happen_all)
  have w3: "counting_from this u before ?w3" using w2 by (simp add: cf_release)
  have w4: "counting_from this u before (fst (avatar_frame nsamp i (nodes fr) ?w3))"
    using w3 by (rule cf_avatar_frame)
  show ?thesis
    using w1 w2 w4
    by (cases "avatar_frame nsamp i (nodes fr) ?w3")
       (auto simp: run_iteration_def Let_def cf_report_exception cf_emit split: loop_control.splits)
qed

lemma cf_run_loop:
  assumes "\<forall>fr\<in>set frs. NodeIsKilled this u \<notin> set (whileAsleep fr) \<union> set (whileProcessingEvents fr)"
    and "counting_from this u before w"
    and "run_loop nsamp i frs w = Some w'"
  shows "counting_from this u before w'"
  using assms
proof (induction frs arbitrary: w)
  case Nil
  then show ?case by (simp split: if_splits)
next
  case (Cons fr frs)
  show ?case
  proof (cases "isFinished (self i w)")
    case True
    then show ?thesis using Cons.prems by simp
  next
    case False
    have step: "counting_from this u before (fst (run_iteration nsamp i fr w))"
      using Cons.prems by (intro cf_run_iteration) auto
    show ?thesis
    proof (cases "run_iteration nsamp i fr w")
      case (Pair w1 ctl)
      show ?thesis
      proof (cases ctl)
        case Break
        then show ?thesis using Cons.prems False Pair step by simp
      next
        case Continue
        then have "run_loop nsamp i frs w1 = Some w'"
          using Cons.prems False Pair by simp
        then show ?thesis using Cons.IH [of w1] Cons.prems step Pair by simp
      qed
    qed
  qed
qed

text \<open>
  C6. Take a peer \<open>u\<close> for which the engine has no counter (it never sent to it, or the
  peer was killed), and any run of the loop during which no \<open>nodeKilled\<close> for \<open>u\<close>
  arrives. Then the sequence numbers of the audio datagrams sent to \<open>u\<close> during the run
  are 0, 1, 2, ... in order, as 16-bit words (so 65535 is followed by 0). And
  \<open>nodeKilled\<close> for \<open>u\<close> removes the counter, so that the next packet to \<open>u\<close> starts at 0 again.
\<close>

theorem sequence_numbers_count_up:
  assumes "outgoingScriptAudioSequenceNumbers (self this w) u = None"
    and "\<forall>fr\<in>set frs. NodeIsKilled this u \<notin> set (whileAsleep fr) \<union> set (whileProcessingEvents fr)"
    and "run_loop nsamp this frs w = Some w'"
  shows "(\<exists>n. sequences_to this u (trace w') = sequences_to this u (trace w) @ map word_of_nat [0..<n]) \<and>
         outgoingScriptAudioSequenceNumbers (self this (nodeKilled this u w')) u = None"
proof
  have "counting_from this u (sequences_to this u (trace w)) w"
    unfolding counting_from_def using assms(1)
    by (intro exI [of _ 0]) (simp add: current_sequence_def)
  then have "counting_from this u (sequences_to this u (trace w)) w'"
    using assms(2,3) cf_run_loop by blast
  then show "\<exists>n. sequences_to this u (trace w') = sequences_to this u (trace w) @ map word_of_nat [0..<n]"
    unfolding counting_from_def by blast
  show "outgoingScriptAudioSequenceNumbers (self this (nodeKilled this u w')) u = None"
    by (simp add: nodeKilled_def self_def update_self_def)
qed

theorem sequence_numbers_count_up_witness:
  "outgoingScriptAudioSequenceNumbers (self 0 (avatar_world True None)) 7 = None \<and>
   (\<exists>w'. run_loop 400 0 [quiet_frame, quiet_frame, quiet_frame\<lparr>whileAsleep := [Stops 0]\<rparr>]
            (avatar_world True None) = Some w' \<and>
         sequences_to 0 7 (trace w') = [0, 1] \<and>
         (\<exists>n. sequences_to 0 7 (trace w')
                = sequences_to 0 7 (trace (avatar_world True None)) @ map word_of_nat [0..<n]) \<and>
         outgoingScriptAudioSequenceNumbers (self 0 (nodeKilled 0 7 w')) 7 = None)"
proof -
  let ?frs = "[quiet_frame, quiet_frame, quiet_frame\<lparr>whileAsleep := [Stops 0]\<rparr>]"
  have start: "outgoingScriptAudioSequenceNumbers (self 0 (avatar_world True None)) 7 = None"
    by (simp add: avatar_world_def avatar_engine_def new_ScriptEngine_def self_def)
  have nokill: "\<forall>fr\<in>set ?frs. NodeIsKilled 0 7 \<notin> set (whileAsleep fr) \<union> set (whileProcessingEvents fr)"
    by (simp add: quiet_frame_def)
  have ran: "map_option (\<lambda>w. sequences_to 0 7 (trace w)) (run_loop 400 0 ?frs (avatar_world True None))
      = Some [0, 1]"
    by code_simp
  then obtain w' where w': "run_loop 400 0 ?frs (avatar_world True None) = Some w'"
    "sequences_to 0 7 (trace w') = [0, 1]"
    by auto
  show ?thesis
    using start w' sequence_numbers_count_up [OF start nokill w'(1)] by blast
qed

subsection \<open>The cursor of the avatar's sound\<close>

lemma sound_write_to_node:
  "avatarSound (self this (write_to_node i kind packet node w)) = avatarSound (self this w) \<and>
   numAvatarSoundSentBytes (self this (write_to_node i kind packet node w))
     = numAvatarSoundSentBytes (self this w)"
  by (simp add: write_to_node_def next_sequence_def Let_def emit_def update_self_def self_def)

lemma sound_eachNode_write:
  "avatarSound (self this (eachNode_write i kind packet ns w)) = avatarSound (self this w) \<and>
   numAvatarSoundSentBytes (self this (eachNode_write i kind packet ns w))
     = numAvatarSoundSentBytes (self this w)"
  unfolding eachNode_write_def
  by (induction ns arbitrary: w) (simp_all add: sound_write_to_node)

lemma audio_frame_sound:
  assumes "avatarSound (self this w) = Some soundByteArray"
  shows "avatarSound (self this (fst (audio_frame nsamp this ns w)))
           = avatarSound (snd (snd (pull_avatar_sound nsamp soundByteArray (self this w)))) \<and>
         numAvatarSoundSentBytes (self this (fst (audio_frame nsamp this ns w)))
           = numAvatarSoundSentBytes (snd (snd (pull_avatar_sound nsamp soundByteArray (self this w))))"
proof -
  obtain silentFrame samples e where
    pulled: "pull_avatar_sound nsamp soundByteArray (self this w) = (silentFrame, samples, e)"
    using prod_cases3 by blast
  have "self this (update_self this (\<lambda>_. e) w) = e"
    by (simp add: self_def update_self_def)
  then show ?thesis
    using assms pulled by (simp add: audio_frame_def Let_def sound_eachNode_write)
qed

text \<open>
  C8. In a frame with a sound queued, the cursor \<open>_numAvatarSoundSentBytes\<close> moves on by
  at most \<open>SCRIPT_AUDIO_BUFFER_BYTES\<close> and not beyond the length of the sound's bytes. If it
  reaches the length, the sound is released and the cursor is zero after the frame;
  otherwise the sound stays and the cursor is the advanced value. From a cursor within
  the sound the cursor does not move back.
\<close>

theorem sound_cursor_advances_by_a_frame:
  assumes "avatarSound (self this w) = Some soundByteArray"
      and "sent = numAvatarSoundSentBytes (self this w)"
      and "advanced = sent + numAvailableBytes nsamp (int (length soundByteArray)) sent"
      and "w' = fst (audio_frame nsamp this ns w)"
  shows "advanced - sent \<le> 2 * nsamp \<and>
         advanced \<le> int (length soundByteArray) \<and>
         (advanced = int (length soundByteArray) \<longrightarrow>
            avatarSound (self this w') = None \<and> numAvatarSoundSentBytes (self this w') = 0) \<and>
         (advanced \<noteq> int (length soundByteArray) \<longrightarrow>
            avatarSound (self this w') = Some soundByteArray \<and>
            numAvatarSoundSentBytes (self this w') = advanced) \<and>
         (0 \<le> nsamp \<and> 0 \<le> sent \<and> sent \<le> int (length soundByteArray) \<longrightarrow> sent \<le> advanced)"
proof -
  have bound: "advanced - sent \<le> 2 * nsamp \<and> advanced \<le> int (length soundByteArray)"
    using assms(3) by (simp add: numAvailableBytes_def)
  have after:
    "avatarSound (self this w')
       = avatarSound (snd (snd (pull_avatar_sound nsamp soundByteArray (self this w))))"
    "numAvatarSoundSentBytes (self this w')
       = numAvatarSoundSentBytes (snd (snd (pull_avatar_sound nsamp soundByteArray (self this w))))"
    using audio_frame_sound [OF assms(1)] assms(4) by simp_all
  have released: "advanced = int (length soundByteArray) \<longrightarrow>
      avatarSound (self this w') = None \<and> numAvatarSoundSentBytes (self this w') = 0"
    using after assms(2,3) by (simp add: pull_avatar_sound_def Let_def)
  have kept: "advanced \<noteq> int (length soundByteArray) \<longrightarrow>
      avatarSound (self this w') = Some soundByteArray \<and>
      numAvatarSoundSentBytes (self this w') = advanced"
    using after assms(1,2,3) by (simp add: pull_avatar_sound_def Let_def)
  have forward: "0 \<le> nsamp \<and> 0 \<le> sent \<and> sent \<le> int (length soundByteArray) \<longrightarrow> sent \<le> advanced"
    using assms(3) by (simp add: numAvailableBytes_def)
  from bound released kept forward show ?thesis by blast
qed

theorem sound_cursor_advances_by_a_frame_witness:
  "avatarSound (self 0 (avatar_world False (Some [0, 1, 0, 0]))) = Some [0, 1, 0, 0] \<and>
   numAvatarSoundSentBytes (self 0 (avatar_world False (Some [0, 1, 0, 0]))) = 0 \<and>
   0 + numAvailableBytes 1 (int (length [0, 1, 0, 0 :: byte])) 0 = 2 \<and>
   avatarSound (self 0 (fst (audio_frame 1 0 [] (avatar_world False (Some [0, 1, 0, 0])))))
     = Some [0, 1, 0, 0] \<and>
   numAvatarSoundSentBytes (self 0 (fst (audio_frame 1 0 [] (avatar_world False (Some [0, 1, 0, 0])))))
     = 2"
proof -
  have s: "avatarSound (self 0 (avatar_world False (Some [0, 1, 0, 0]))) = Some [0, 1, 0, 0]"
    by (simp add: avatar_world_def avatar_engine_def new_ScriptEngine_def self_def)
  have c: "numAvatarSoundSentBytes (self 0 (avatar_world False (Some [0, 1, 0, 0]))) = 0"
    by (simp add: avatar_world_def avatar_engine_def new_ScriptEngine_def self_def)
  have a: "0 + numAvailableBytes 1 (int (length [0, 1, 0, 0 :: byte])) 0 = 2"
    by (simp add: numAvailableBytes_def)
  show ?thesis
    using s c a
      sound_cursor_advances_by_a_frame [OF s c [symmetric] a [symmetric] refl, of "[]"]
    by simp
qed

subsection \<open>A silent frame while not listening\<close>

text \<open>
  C1. An avatar engine that is not listening plays a sound whose first frame is silent
  (four zero bytes, two samples). In the first iteration no audio datagram is sent, but
  the \<open>break\<close> leaves the loop of \<open>run\<close>: the second frame is never met, no \<open>update\<close> is
  emitted, \<open>run\<close> goes through its ending steps (\<open>scriptEnding\<close>, \<open>finished\<close>,
  \<open>doneRunning\<close>) and the engine is no longer running.
\<close>

theorem silent_frame_ends_run:
  "map_option (\<lambda>w. (trace w, isRunning (self 0 w)))
     (run 400 0 [quiet_frame, quiet_frame] False False (avatar_world False (Some [0, 0, 0, 0])))
   = Some ([RunningStateChanged 0, EvaluationFinished 0 InvalidValue False,
            AvatarPacketBroadcast 0 [], ScriptEnding 0, Finished 0,
            RunningStateChanged 0, DoneRunning 0],
           False)"
  by code_simp

text \<open>
  With no sound queued and the engine not listening, the audio block is not entered and
  the iteration ends with \<open>update\<close> and goes on.
\<close>

lemma frame_without_sound_goes_on:
  "(case run_iteration 400 0 quiet_frame (run_enter 0 (avatar_world False None)) of
      (w, control) \<Rightarrow> (trace w, control))
   = ([RunningStateChanged 0, EvaluationFinished 0 InvalidValue False,
       AvatarPacketBroadcast 0 [], Update 0],
      Continue)"
  by code_simp

subsection \<open>stopAllScripts\<close>

lemma rk_refl: "registry_kept w w"
  by (simp add: registry_kept_def)

lemma rk_trans: "registry_kept w w1 \<Longrightarrow> registry_kept w1 w2 \<Longrightarrow> registry_kept w w2"
  by (simp add: registry_kept_def)

lemma rk_update_self: "registry_kept w (update_self i f w)"
  by (simp add: registry_kept_def update_self_def)

lemma rk_emit: "registry_kept w (emit e w)"
  by (simp add: registry_kept_def emit_def)

lemma rk_setInterval: "registry_kept w (fst (setInterval i f ms w))"
  by (simp add: registry_kept_def setInterval_def setupTimerWithInterval_def update_self_def Let_def)

lemma rk_setTimeout: "registry_kept w (fst (setTimeout i f ms w))"
  by (simp add: registry_kept_def setTimeout_def setupTimerWithInterval_def update_self_def Let_def)

lemma rk_stopTimer: "registry_kept w (stopTimer i t w)"
  by (simp add: registry_kept_def stopTimer_def qtimer_stop_def qtimer_delete_def update_self_def
      Let_def split: option.splits)

lemma rk_stop: "registry_kept w (stop i w)"
  by (simp add: registry_kept_def stop_def emit_def update_self_def)

lemma rk_print: "registry_kept w (print i m w)"
  by (simp add: registry_kept_def print_def emit_def)

lemma rk_load: "registry_kept w (load i f w)"
  by (simp add: registry_kept_def load_def emit_def)

lemma rk_flag: "registry_kept w (w\<lparr>stoppingAllScripts := b\<rparr>)"
  by (simp add: registry_kept_def)

lemma rk_evaluate_enter: "registry_kept w (evaluate_enter i w)"
  by (simp add: evaluate_enter_def rk_update_self)

lemma rk_evaluate_leave: "registry_kept w (evaluate_leave i r th w)"
  by (simp add: registry_kept_def evaluate_leave_def Let_def clearExceptions_def emit_def
      update_self_def)

lemma rk_run_in_order:
  "(\<And>step w. step \<in> set steps \<Longrightarrow> registry_kept w (step w)) \<Longrightarrow>
   registry_kept w (run_in_order steps w)"
  by (induction steps arbitrary: w) (simp_all add: run_in_order_def registry_kept_def)

lemma rk_evaluateScripts:
  assumes evs: "\<And>eval w. Some eval \<in> set evaluations \<Longrightarrow> registry_kept w (fst (eval w))"
    and cb: "\<And>w. registry_kept w (callCallback w)"
  shows "registry_kept w (evaluateScripts evaluations isF callCallback w)"
proof -
  have loop: "registry_kept w
      (fold (\<lambda>contents w. case contents of None \<Rightarrow> w | Some eval \<Rightarrow> fst (eval w)) evaluations w)"
    using evs
  proof (induction evaluations arbitrary: w)
    case Nil
    then show ?case by (simp add: rk_refl)
  next
    case (Cons x xs)
    have "registry_kept w (case x of None \<Rightarrow> w | Some eval \<Rightarrow> fst (eval w))"
      using Cons.prems by (cases x) (simp_all add: rk_refl)
    moreover have "registry_kept (case x of None \<Rightarrow> w | Some eval \<Rightarrow> fst (eval w))
       (fold (\<lambda>contents w. case contents of None \<Rightarrow> w | Some eval \<Rightarrow> fst (eval w)) xs
          (case x of None \<Rightarrow> w | Some eval \<Rightarrow> fst (eval w)))"
      using Cons.IH Cons.prems by simp
    ultimately show ?case using rk_trans by simp
  qed
  show ?thesis
    unfolding evaluateScripts_def Let_def using loop cb rk_trans by (cases isF) auto
qed

lemma rk_script:
  "\<forall>w. registry_kept w (call_function i v w)"
  "\<forall>w. registry_kept w (run_function_body i b w)"
  "\<forall>w. registry_kept w (fst (evaluate i p w))"
  "\<forall>w. registry_kept w (run_call i k w)"
proof (induct v and b and p and k)
  case (FunctionBody calls throws)
  show ?case
  proof
    fix w
    have "registry_kept w (run_in_order (map (run_call i) calls) w)"
      using FunctionBody by (intro rk_run_in_order) auto
    then show "registry_kept w (run_function_body i (FunctionBody calls throws) w)"
      by (simp add: registry_kept_def update_self_def)
  qed
next
  case (Program calls result throws)
  show ?case
  proof
    fix w
    have "registry_kept (evaluate_enter i w) (run_in_order (map (run_call i) calls) (evaluate_enter i w))"
      using Program by (intro rk_run_in_order) auto
    then show "registry_kept w (fst (evaluate i (Program calls result throws) w))"
      using rk_evaluate_enter [of w i] rk_evaluate_leave rk_trans
      by (simp add: Let_def rk_refl)
  qed
next
  case (CallInclude contents callback loaderFinished)
  show ?case
  proof
    fix w
    have "registry_kept w
       (evaluateScripts (map (map_option (evaluate i)) contents) (isFunction callback)
          (call_function i callback) w)"
      using CallInclude
      by (intro rk_evaluateScripts) (auto simp: map_option_case split: option.splits)
    then show "registry_kept w (run_call i (CallInclude contents callback loaderFinished) w)"
      by (simp add: rk_refl)
  qed
qed (simp_all add: rk_refl rk_setInterval rk_setTimeout rk_stopTimer rk_stop rk_print rk_load rk_flag)

lemma rk_qt_timeout: "registry_kept w (qt_timeout t w)"
proof -
  have fired: "\<And>i w. registry_kept w (timerFired i t w)"
  proof -
    fix i w
    have a: "registry_kept w (retire_timer i t w)"
      by (simp add: registry_kept_def retire_timer_def qtimer_delete_def update_self_def)
    have b: "registry_kept (retire_timer i t w)
        (emit (TimerFunctionCalled i t (map fst (timerFunctionMap (self i (retire_timer i t w)))))
           (retire_timer i t w))"
      by (rule rk_emit)
    show "registry_kept w (timerFired i t w)"
      using a b rk_script(1) rk_trans by (simp add: timerFired_def Let_def)
  qed
  have stop: "registry_kept w (qtimer_stop t w)"
    by (simp add: registry_kept_def qtimer_stop_def split: option.splits)
  show ?thesis
    using fired stop rk_trans by (auto simp: qt_timeout_def rk_refl split: option.splits)
qed

lemma rk_fold_stopTimer: "registry_kept w (fold (\<lambda>timer. stopTimer i timer) ts w)"
proof (induction ts arbitrary: w)
  case Nil
  then show ?case by (simp add: rk_refl)
next
  case (Cons t ts)
  show ?case using rk_stopTimer [of w i t] Cons [of "stopTimer i t w"] rk_trans by simp
qed

lemma rk_run_leave: "registry_kept w (run_leave i s th w)"
proof -
  have "allKnownScriptEngines (stopAllTimers i w) = allKnownScriptEngines w"
    using rk_fold_stopTimer by (simp add: stopAllTimers_def registry_kept_def)
  then show ?thesis
    by (simp add: registry_kept_def run_leave_def Let_def emit_def update_self_def
        release_entity_messages_def emit_scriptEnding_def)
qed

lemma rk_run_enter: "registry_kept w (run_enter i w)"
proof -
  have "\<And>p w. allKnownScriptEngines (fst (evaluate i p w)) = allKnownScriptEngines w"
    using rk_script(3) by (simp add: registry_kept_def)
  then show ?thesis
    by (simp add: registry_kept_def run_enter_def Let_def init_def emit_def update_self_def self_def)
qed

lemma rk_happen: "registry_kept w (happen h w)"
proof (cases h)
  case (LoaderFinished i contents callback)
  have "registry_kept w
     (evaluateScripts (map (map_option (evaluate i)) contents) (isFunction callback)
        (call_function i callback) w)"
    using rk_script(1) rk_script(3)
    by (intro rk_evaluateScripts) (auto simp: map_option_case split: option.splits)
  then show ?thesis using LoaderFinished by simp
qed (use rk_script(3) in \<open>simp_all add: rk_refl rk_qt_timeout rk_stop rk_evaluate_leave rk_run_enter
      rk_run_leave nodeKilled_def rk_update_self\<close>)

lemma rk_happen_all: "registry_kept w (happen_all hs w)"
  unfolding happen_all_def
proof (induction hs arbitrary: w)
  case Nil
  then show ?case by (simp add: rk_refl)
next
  case (Cons h hs)
  show ?case using rk_happen [of w h] Cons [of "happen h w"] rk_trans by simp
qed

lemma rk_wait_evaluations:
  "wait_evaluations i batches w = Some (w', batches') \<Longrightarrow> registry_kept w w'"
proof (induction batches arbitrary: w)
  case Nil
  then show ?case by (simp add: rk_refl split: if_splits)
next
  case (Cons b bs)
  show ?case
  proof (cases "evaluatePending i w")
    case False
    then show ?thesis using Cons.prems by (simp add: rk_refl)
  next
    case True
    then obtain w1 where w1: "loop_exec i b w = Some w1" and rest: "wait_evaluations i bs w1 = Some (w', batches')"
      using Cons.prems by (auto split: option.splits)
    have "w1 = happen_all b w" using w1 by (simp add: loop_exec_def Let_def split: if_splits)
    then have "registry_kept w w1" by (simp add: rk_happen_all)
    then show ?thesis using Cons.IH [OF rest] rk_trans by blast
  qed
qed

lemma rk_poll:
  "poll_doneRunning batches w = Some (w', batches') \<Longrightarrow> registry_kept w w'"
proof (induction batches arbitrary: w)
  case Nil
  then show ?case by (simp add: rk_refl split: if_splits)
next
  case (Cons b bs)
  show ?case
  proof (cases "doneRunningThisScript w")
    case True
    then show ?thesis using Cons.prems by (simp add: rk_refl)
  next
    case False
    then have "poll_doneRunning bs (happen_all b w) = Some (w', batches')"
      using Cons.prems by simp
    then show ?thesis using Cons.IH rk_happen_all [of w b] rk_trans by blast
  qed
qed

lemma rk_waitTillDoneRunning:
  "waitTillDoneRunning i batches w = Some (w', batches') \<Longrightarrow> registry_kept w w'"
  using rk_poll [of batches "w\<lparr>doneRunningThisScript := False\<rparr>" w' batches']
  by (auto simp: waitTillDoneRunning_def registry_kept_def split: if_splits)

lemma sweep_append:
  "sweep app (pre @ post) batches w =
     (case sweep app pre batches w of
        None \<Rightarrow> None
      | Some (w1, batches1) \<Rightarrow> sweep app post batches1 w1)"
  by (induction pre arbitrary: batches w) (auto simp: Let_def split: option.splits)

lemma sweep_keeps_others:
  "h \<notin> set hs \<Longrightarrow> sweep app hs batches w = Some (w', batches') \<Longrightarrow>
   h \<in> set (allKnownScriptEngines w) \<Longrightarrow> h \<in> set (allKnownScriptEngines w')"
proof (induction hs arbitrary: batches w)
  case Nil
  then show ?case by simp
next
  case (Cons x hs)
  show ?case
  proof (cases "isRunning_get x w")
    case False
    then show ?thesis using Cons by simp
  next
    case True
    then obtain w1 b1 w4 b4 where
      a: "wait_evaluations x batches w = Some (w1, b1)" and
      b: "waitTillDoneRunning x b1 (stop x (disconnect x app w1)) = Some (w4, b4)" and
      c: "sweep app hs b4 (w4\<lparr>allKnownScriptEngines := removeAll x (allKnownScriptEngines w4)\<rparr>)
            = Some (w', batches')"
      using Cons.prems(2) by (auto simp: Let_def split: option.splits)
    have "allKnownScriptEngines w4 = allKnownScriptEngines w"
      using rk_wait_evaluations [OF a] rk_waitTillDoneRunning [OF b]
      by (simp add: registry_kept_def stop_def disconnect_def emit_def update_self_def)
    then have "h \<in> set (allKnownScriptEngines
        (w4\<lparr>allKnownScriptEngines := removeAll x (allKnownScriptEngines w4)\<rparr>))"
      using Cons.prems(1,3) by simp
    then show ?thesis using Cons.IH [OF _ c] Cons.prems(1) by simp
  qed
qed

text \<open>
  C9. Let the sweep of \<open>stopAllScripts\<close> reach engine \<open>h\<close> in world \<open>w1\<close> with the batches
  \<open>batches1\<close> still to come, and let \<open>h\<close> not be running then. Then the sweep goes on with
  the engines after \<open>h\<close> from that same world and with those same batches: \<open>h\<close> is not
  disconnected, not stopped and not waited for. And if \<open>stopAllScripts\<close> returns, \<open>h\<close> is
  still in \<open>_allKnownScriptEngines\<close>.
\<close>

theorem idle_engine_is_skipped:
  assumes "allKnownScriptEngines w = pre @ h # post"
      and "distinct (allKnownScriptEngines w)"
      and "sweep app pre batches (w\<lparr>stoppingAllScripts := True\<rparr>) = Some (w1, batches1)"
      and "\<not> isRunning_get h w1"
  shows "stopAllScripts app batches w =
           (case sweep app post batches1 w1 of
              None \<Rightarrow> None
            | Some (w2, batches2) \<Rightarrow> Some (w2\<lparr>stoppingAllScripts := False\<rparr>, batches2)) \<and>
         (\<forall>w' batches'. stopAllScripts app batches w = Some (w', batches') \<longrightarrow>
            h \<in> set (allKnownScriptEngines w'))"
proof -
  have nin: "h \<notin> set pre" "h \<notin> set post"
    using assms(1,2) by auto
  have whole: "sweep app (pre @ h # post) batches (w\<lparr>stoppingAllScripts := True\<rparr>)
      = sweep app post batches1 w1"
    using assms(3,4) by (simp add: sweep_append)
  have first: "stopAllScripts app batches w =
           (case sweep app post batches1 w1 of
              None \<Rightarrow> None
            | Some (w2, batches2) \<Rightarrow> Some (w2\<lparr>stoppingAllScripts := False\<rparr>, batches2))"
    using whole assms(1) by (simp add: stopAllScripts_def Let_def)
  have in1: "h \<in> set (allKnownScriptEngines w1)"
    using sweep_keeps_others [OF nin(1) assms(3)] assms(1) by simp
  have second: "\<forall>w' batches'. stopAllScripts app batches w = Some (w', batches') \<longrightarrow>
            h \<in> set (allKnownScriptEngines w')"
  proof (intro allI impI)
    fix w' batches'
    assume "stopAllScripts app batches w = Some (w', batches')"
    then obtain w2 where s: "sweep app post batches1 w1 = Some (w2, batches')"
      and w': "w' = w2\<lparr>stoppingAllScripts := False\<rparr>"
      using first by (auto split: option.splits)
    have "h \<in> set (allKnownScriptEngines w2)"
      using sweep_keeps_others [OF nin(2) s in1] .
    then show "h \<in> set (allKnownScriptEngines w')" using w' by simp
  qed
  from first second show ?thesis by blast
qed

theorem idle_engine_is_skipped_witness:
  "allKnownScriptEngines one_idle_one_running = [] @ 1 # [0] \<and>
   distinct (allKnownScriptEngines one_idle_one_running) \<and>
   \<not> isRunning_get 1 (one_idle_one_running\<lparr>stoppingAllScripts := True\<rparr>) \<and>
   (\<exists>w'. stopAllScripts 99 [[LeavesRun 0 False False]] one_idle_one_running = Some (w', []) \<and>
         allKnownScriptEngines w' = [1] \<and> 1 \<in> set (allKnownScriptEngines w'))"
proof -
  have reg: "allKnownScriptEngines one_idle_one_running = [] @ 1 # [0]"
    by code_simp
  have dist: "distinct (allKnownScriptEngines one_idle_one_running)"
    by code_simp
  have idle: "\<not> isRunning_get 1 (one_idle_one_running\<lparr>stoppingAllScripts := True\<rparr>)"
    by code_simp
  have pre: "sweep 99 [] [[LeavesRun 0 False False]] (one_idle_one_running\<lparr>stoppingAllScripts := True\<rparr>)
      = Some (one_idle_one_running\<lparr>stoppingAllScripts := True\<rparr>, [[LeavesRun 0 False False]])"
    by simp
  have ran: "map_option (\<lambda>(w', b). (allKnownScriptEngines w', b))
      (stopAllScripts 99 [[LeavesRun 0 False False]] one_idle_one_running) = Some ([1], [])"
    by code_simp
  then obtain w' where
    w': "stopAllScripts 99 [[LeavesRun 0 False False]] one_idle_one_running = Some (w', [])"
      "allKnownScriptEngines w' = [1]"
    by (auto split: prod.splits)
  have "1 \<in> set (allKnownScriptEngines w')"
    using idle_engine_is_skipped [OF reg dist pre idle] w'(1) by blast
  with reg dist idle w' show ?thesis by blast
qed

text \<open>
  C3. Engines 0 and 1 are both running, each on its own thread; the sweep reaches
  engine 1 first. While \<open>stopAllScripts\<close> waits for engine 1, the script of engine 0 stops
  itself and its thread leaves \<open>run\<close>, which sets the static \<open>_doneRunningThisScript\<close>.
  The wait for engine 1 ends on that, and engine 1 is removed from the set while it is
  still running. \<open>stopAllScripts\<close> returns in that world.
\<close>

theorem stopAll_returns_while_swept_engine_runs:
  "map_option
     (\<lambda>(w, batches). (allKnownScriptEngines w, isRunning (self 1 w), isRunning (self 0 w), batches))
     (stopAllScripts 99 [[Stops 0, LeavesRun 0 False False]] two_running)
   = Some ([0], True, False, [])"
  by code_simp

text \<open>
  When each engine leaves \<open>run\<close> during the wait for it, both are stopped and removed.
\<close>

lemma stopAll_in_turn:
  "map_option
     (\<lambda>(w, batches). (allKnownScriptEngines w, isRunning (self 1 w), isRunning (self 0 w), batches))
     (stopAllScripts 99 [[LeavesRun 1 False False], [LeavesRun 0 False False]] two_running)
   = Some ([], False, False, [])"
  by code_simp

text \<open>
  An engine that is not yet running when the sweep passes it, and whose thread enters
  \<open>run\<close> while the sweep waits for a later engine, is running and still in the set when
  \<open>stopAllScripts\<close> returns: \<open>run\<close> does not look at \<open>_stoppingAllScripts\<close>.
\<close>

lemma engine_entering_run_during_sweep:
  "map_option
     (\<lambda>(w, batches). (allKnownScriptEngines w, isRunning (self 1 w), isRunning (self 0 w), batches))
     (stopAllScripts 99 [[EntersRun 1, LeavesRun 0 False False]] one_idle_one_running)
   = Some ([1], True, False, [])"
  by code_simp

end
